theory Spec2Isabelle
  imports Main "HOL-Library.Word"
begin

section \<open>The parallel operation of XrdCl (XrdClParallelOperation.hh)\<close>

text \<open>
  A shallow embedding of \<^verbatim>\<open>XrdCl::ParallelOperation\<close>: the four execution policies
  (\<^verbatim>\<open>AllPolicy\<close>, \<^verbatim>\<open>AnyPolicy\<close>, \<^verbatim>\<open>SomePolicy\<close>, \<^verbatim>\<open>AtLeastPolicy\<close>), the RAII helper
  \<^verbatim>\<open>Ctx\<close> that owns the pipeline handler, and \<^verbatim>\<open>RunImpl\<close>, which launches the pipelines.

  The counters of the policies are atomic \<^verbatim>\<open>size_t\<close> values; they are 64-bit words here, so
  that \<^verbatim>\<open>fetch_sub\<close> and \<^verbatim>\<open>fetch_add\<close> wrap around as they do in the program. Every call of
  \<^verbatim>\<open>Ctx::Examine\<close> is one step of the model: the order of the steps is the order in which
  the atomic operations of the calls take effect.
\<close>

type_synonym size_t = "64 word"
type_synonym uint16_t = "16 word"

subsection \<open>Status values\<close>

text \<open>
  Modelled from the spec: \<^verbatim>\<open>XRootDStatus\<close> is declared in XrdClXRootDResponses.hh, which is
  not among the sources. The spec describes it as a success/failure tag with an optional
  error description, constructible as a default success value and as a failure value
  carrying a message. \<^verbatim>\<open>RunImpl\<close> builds the latter as \<^verbatim>\<open>XRootDStatus( stError, ex.what() )\<close>.
\<close>

datatype status_tag = stOK | stError

datatype XRootDStatus = XRootDStatus (status: status_tag) (message: string)

definition IsOK :: "XRootDStatus \<Rightarrow> bool" where
  "IsOK st = (status st = stOK)"

text \<open>The default constructor \<^verbatim>\<open>XRootDStatus()\<close>.\<close>

definition XRootDStatus_default :: XRootDStatus where
  "XRootDStatus_default = XRootDStatus stOK []"

subsection \<open>Execution policies\<close>

text \<open>
  The classes derived from \<^verbatim>\<open>PolicyExecutor\<close>, each with its data members:
  \<^verbatim>\<open>AnyPolicy\<close> has \<^verbatim>\<open>cnt\<close>; \<^verbatim>\<open>SomePolicy\<close> has \<^verbatim>\<open>cnt\<close>, \<^verbatim>\<open>succeeded\<close> and \<^verbatim>\<open>threshold\<close>;
  \<^verbatim>\<open>AtLeastPolicy\<close> has \<^verbatim>\<open>cnt\<close> and \<^verbatim>\<open>threshold\<close>.
\<close>

datatype PolicyExecutor =
    AllPolicy
  | AnyPolicy size_t
  | SomePolicy size_t size_t size_t
  | AtLeastPolicy size_t size_t

text \<open>
  The constructors \<^verbatim>\<open>AnyPolicy( size )\<close>, \<^verbatim>\<open>SomePolicy( size, threshold )\<close> and
  \<^verbatim>\<open>AtLeastPolicy( size, threshold )\<close>.
\<close>

definition new_AnyPolicy :: "size_t \<Rightarrow> PolicyExecutor" where
  "new_AnyPolicy sz = AnyPolicy sz"

definition new_SomePolicy :: "size_t \<Rightarrow> size_t \<Rightarrow> PolicyExecutor" where
  "new_SomePolicy sz threshold = SomePolicy sz 0 threshold"

definition new_AtLeastPolicy :: "size_t \<Rightarrow> size_t \<Rightarrow> PolicyExecutor" where
  "new_AtLeastPolicy sz threshold = AtLeastPolicy sz threshold"

text \<open>
  \<^verbatim>\<open>Examine\<close> returns whether the status is to be passed to the user handler, and the
  policy object with its counters updated. \<^verbatim>\<open>nb\<close> and \<^verbatim>\<open>s\<close> are the values that
  \<^verbatim>\<open>fetch_sub\<close> and \<^verbatim>\<open>fetch_add\<close> return: the ones before the update.
\<close>

fun Examine :: "XRootDStatus \<Rightarrow> PolicyExecutor \<Rightarrow> bool \<times> PolicyExecutor" where
  "Examine st AllPolicy =
     (if IsOK st then (False, AllPolicy) else (True, AllPolicy))"
| "Examine st (AnyPolicy cnt) =
     (let nb = cnt; p = AnyPolicy (cnt - 1) in
      if IsOK st then (True, p)
      else if nb = 1 then (True, p)
      else (False, p))"
| "Examine st (SomePolicy cnt succeeded threshold) =
     (let nb = cnt; cnt' = cnt - 1 in
      if IsOK st then
        (let s = succeeded; p = SomePolicy cnt' (succeeded + 1) threshold in
         if s + 1 = threshold then (True, p) else (False, p))
      else if nb = threshold then (True, SomePolicy cnt' succeeded threshold)
      else (False, SomePolicy cnt' succeeded threshold))"
| "Examine st (AtLeastPolicy cnt threshold) =
     (let nb = cnt; p = AtLeastPolicy (cnt - 1) threshold in
      if IsOK st then (False, p)
      else if nb = threshold then (True, p)
      else (False, p))"

subsection \<open>The handler guard \<^verbatim>\<open>Ctx\<close>\<close>

text \<open>
  \<^verbatim>\<open>Ctx\<close> holds the atomic pointer to the pipeline handler (\<^verbatim>\<open>nullptr\<close> is \<open>None\<close>) and the
  policy. A call \<^verbatim>\<open>hdlr->HandleResponse( new XRootDStatus( st ), nullptr )\<close> is an effect
  outside the class: the functions below return, next to the updated \<^verbatim>\<open>Ctx\<close>, the list of
  the handler calls they made, each with the handler called and the status passed.
\<close>

record 'h Ctx =
  Ctx_handler :: "'h option"
  Ctx_policy :: PolicyExecutor

type_synonym 'h calls = "('h \<times> XRootDStatus) list"

definition new_Ctx :: "'h option \<Rightarrow> PolicyExecutor \<Rightarrow> 'h Ctx" where
  "new_Ctx handler policy = \<lparr>Ctx_handler = handler, Ctx_policy = policy\<rparr>"

definition Handle :: "XRootDStatus \<Rightarrow> 'h Ctx \<Rightarrow> 'h Ctx \<times> 'h calls" where
  "Handle st c =
     (let hdlr = Ctx_handler c; c' = c\<lparr>Ctx_handler := None\<rparr> in
      case hdlr of
        Some h \<Rightarrow> (c', [(h, st)])
      | None \<Rightarrow> (c', []))"

definition Ctx_Examine :: "XRootDStatus \<Rightarrow> 'h Ctx \<Rightarrow> 'h Ctx \<times> 'h calls" where
  "Ctx_Examine st c =
     (case Examine st (Ctx_policy c) of
        (decided, p) \<Rightarrow>
          (let c' = c\<lparr>Ctx_policy := p\<rparr> in
           if decided then Handle st c' else (c', [])))"

text \<open>The destructor \<^verbatim>\<open>~Ctx\<close>.\<close>

definition Ctx_dtor :: "'h Ctx \<Rightarrow> 'h Ctx \<times> 'h calls" where
  "Ctx_dtor c = Handle XRootDStatus_default c"

text \<open>
  A sequence of calls of \<^verbatim>\<open>Ctx::Examine\<close>, one for each status of the list, in the order of
  the list; the handler calls are collected in order.
\<close>

fun Examine_seq :: "XRootDStatus list \<Rightarrow> 'h Ctx \<Rightarrow> 'h Ctx \<times> 'h calls" where
  "Examine_seq [] c = (c, [])"
| "Examine_seq (st # sts) c =
     (case Ctx_Examine st c of
        (c', out) \<Rightarrow>
          (case Examine_seq sts c' of (c'', out') \<Rightarrow> (c'', out @ out')))"

text \<open>
  The whole life of a \<^verbatim>\<open>Ctx\<close>: the calls of \<^verbatim>\<open>Examine\<close>, then the destructor, which runs
  when the last shared pointer to the object is released. The result is the list of all
  handler calls.
\<close>

definition Ctx_life :: "XRootDStatus list \<Rightarrow> 'h Ctx \<Rightarrow> 'h calls" where
  "Ctx_life sts c =
     (case Examine_seq sts c of (c', out) \<Rightarrow> out @ snd (Ctx_dtor c'))"

subsection \<open>Pipelines\<close>

text \<open>
  Modelled from the spec: \<^verbatim>\<open>Pipeline\<close> is declared in XrdClOperations.hh, which is not among
  the sources. Of a pipeline the parallel operation uses \<^verbatim>\<open>ToString\<close> and \<^verbatim>\<open>Run\<close>. By the spec,
  \<^verbatim>\<open>Run( timeout, continuation )\<close> either starts the task, whose continuation is then invoked
  exactly once, asynchronously, with the task's status, or fails synchronously; \<^verbatim>\<open>RunImpl\<close>
  tells a \<^verbatim>\<open>PipelineException\<close>, which carries a status, from any other \<^verbatim>\<open>std::exception\<close>,
  which carries a text. Both members are fields of the record, so a pipeline can
  behave in any of these ways, depending on the timeout. (An exception that is not a
  \<^verbatim>\<open>std::exception\<close> would leave \<^verbatim>\<open>RunImpl\<close> without a status; the spec names no such launch
  and the model has none.)
\<close>

datatype launch =
    Started
  | ThrowPipelineException XRootDStatus
  | ThrowException string

record Pipeline =
  Pipeline_ToString :: string
  Run :: "uint16_t \<Rightarrow> launch"

subsection \<open>\<^verbatim>\<open>ParallelOperation\<close>\<close>

text \<open>
  The data members \<^verbatim>\<open>pipelines\<close> and \<^verbatim>\<open>policy\<close> (a \<^verbatim>\<open>unique_ptr\<close>, empty until a policy is
  chosen), and \<^verbatim>\<open>timeout\<close>, which \<^verbatim>\<open>RunImpl\<close> reads from the base class.
\<close>

record ParallelOperation =
  pipelines :: "Pipeline list"
  policy :: "PolicyExecutor option"
  timeout :: uint16_t

text \<open>
  The constructor from a container moves the pipelines out of the container and clears
  it: the result is the new operation and the container as it is left. The timeout is
  set by the base class and is a parameter here.
\<close>

definition ParallelOperation_ctor ::
    "Pipeline list \<Rightarrow> uint16_t \<Rightarrow> ParallelOperation \<times> Pipeline list" where
  "ParallelOperation_ctor container t =
     (\<lparr>pipelines = container, policy = None, timeout = t\<rparr>, [])"

text \<open>
  The loop of \<^verbatim>\<open>ToString\<close> over the pipelines that are left: the name of each pipeline,
  followed by the separator unless the pipeline is the last one.
\<close>

fun ToString_loop :: "Pipeline list \<Rightarrow> string" where
  "ToString_loop [] = []"
| "ToString_loop (p # ps) =
     Pipeline_ToString p @ (if ps \<noteq> [] then '' && '' else []) @ ToString_loop ps"

definition ToString :: "ParallelOperation \<Rightarrow> string" where
  "ToString op = ''Parallel('' @ ToString_loop (pipelines op) @ '')''"

text \<open>\<^verbatim>\<open>pipelines.size()\<close> is a \<^verbatim>\<open>size_t\<close>.\<close>

definition size_pipelines :: "ParallelOperation \<Rightarrow> size_t" where
  "size_pipelines op = of_nat (length (pipelines op))"

definition All :: "ParallelOperation \<Rightarrow> ParallelOperation" where
  "All op = op\<lparr>policy := Some AllPolicy\<rparr>"

definition Any :: "ParallelOperation \<Rightarrow> ParallelOperation" where
  "Any op = op\<lparr>policy := Some (new_AnyPolicy (size_pipelines op))\<rparr>"

definition Some_policy :: "size_t \<Rightarrow> ParallelOperation \<Rightarrow> ParallelOperation" where
  "Some_policy threshold op =
     op\<lparr>policy := Some (new_SomePolicy (size_pipelines op) threshold)\<rparr>"

definition AtLeast :: "size_t \<Rightarrow> ParallelOperation \<Rightarrow> ParallelOperation" where
  "AtLeast threshold op =
     op\<lparr>policy := Some (new_AtLeastPolicy (size_pipelines op) threshold)\<rparr>"

subsection \<open>\<^verbatim>\<open>RunImpl\<close> and the completions of the pipelines\<close>

text \<open>
  The state of one activation: the \<^verbatim>\<open>Ctx\<close> object, the number of shared pointers that own
  it (\<^verbatim>\<open>RunImpl\<close>'s local \<^verbatim>\<open>ctx\<close> and the copy captured by the continuation of each started
  pipeline), the handler calls made so far, the position of \<^verbatim>\<open>RunImpl\<close> (in its loop at
  index \<open>i\<close>, or returned with a status), and the started pipelines whose continuation
  has not run yet.
\<close>

datatype pc = Loop nat | Returned XRootDStatus

record 'h activation =
  ctx :: "'h Ctx"
  use_count :: nat
  responses :: "'h calls"
  pc :: pc
  running :: "nat list"

definition on_ctx :: "('h Ctx \<Rightarrow> 'h Ctx \<times> 'h calls) \<Rightarrow> 'h activation \<Rightarrow> 'h activation" where
  "on_ctx f w =
     (case f (ctx w) of (c, out) \<Rightarrow> w\<lparr>ctx := c, responses := responses w @ out\<rparr>)"

text \<open>
  A shared pointer to the \<^verbatim>\<open>Ctx\<close> goes away; the last one destroys the object, which runs
  \<^verbatim>\<open>~Ctx\<close>.
\<close>

definition release :: "'h activation \<Rightarrow> 'h activation" where
  "release w =
     (if use_count w = 1 then on_ctx Ctx_dtor (w\<lparr>use_count := 0\<rparr>)
      else w\<lparr>use_count := use_count w - 1\<rparr>)"

text \<open>
  The start of \<^verbatim>\<open>RunImpl\<close>, up to the loop: the default policy, and the \<^verbatim>\<open>Ctx\<close> made
  from the handler and the policy, owned by the local shared pointer.
\<close>

definition RunImpl_enter :: "ParallelOperation \<Rightarrow> 'h option \<Rightarrow> 'h activation" where
  "RunImpl_enter op handler =
     (let p = (case policy op of None \<Rightarrow> AllPolicy | Some p \<Rightarrow> p) in
      \<lparr>ctx = new_Ctx handler p, use_count = 1, responses = [],
       pc = Loop 0, running = []\<rparr>)"

text \<open>
  The timeout that \<^verbatim>\<open>RunImpl\<close> passes to the pipelines, and one step of \<^verbatim>\<open>RunImpl\<close>: an
  iteration of the loop, which runs pipeline \<open>i\<close> with a continuation that holds a copy of
  the shared pointer, or the return. A return, also from a \<^verbatim>\<open>catch\<close> block, ends the life of
  the local shared pointer. There is no step after the return. (\<^verbatim>\<open>RunImpl\<close> also empties the
  \<^verbatim>\<open>policy\<close> member of the operation, which it reads no more.)
\<close>

definition RunImpl_timeout :: "ParallelOperation \<Rightarrow> uint16_t \<Rightarrow> uint16_t" where
  "RunImpl_timeout op pipelineTimeout =
     (if pipelineTimeout < timeout op then pipelineTimeout else timeout op)"

definition RunImpl_step ::
    "ParallelOperation \<Rightarrow> uint16_t \<Rightarrow> 'h activation \<Rightarrow> 'h activation option" where
  "RunImpl_step op pipelineTimeout w =
     (let t = RunImpl_timeout op pipelineTimeout in
      case pc w of
        Returned r \<Rightarrow> None
      | Loop i \<Rightarrow>
          if i < length (pipelines op) then
            (case Run (pipelines op ! i) t of
               Started \<Rightarrow>
                 Some (w\<lparr>use_count := use_count w + 1, pc := Loop (i + 1),
                         running := running w @ [i]\<rparr>)
             | ThrowPipelineException err \<Rightarrow>
                 Some (release (w\<lparr>pc := Returned err\<rparr>))
             | ThrowException what \<Rightarrow>
                 Some (release (w\<lparr>pc := Returned (XRootDStatus stError what)\<rparr>)))
          else Some (release (w\<lparr>pc := Returned XRootDStatus_default\<rparr>)))"

text \<open>
  The continuation \<^verbatim>\<open>[ctx]( const XRootDStatus &st ){ ctx->Examine( st ); }\<close> of the started
  pipeline \<open>i\<close> runs with the status of the pipeline, and is destroyed with its copy of
  the shared pointer. It runs once: there is no such step for a pipeline that is not
  running.
\<close>

definition continuation ::
    "nat \<Rightarrow> XRootDStatus \<Rightarrow> 'h activation \<Rightarrow> 'h activation option" where
  "continuation i st w =
     (if i \<in> set (running w)
      then Some (release (on_ctx (Ctx_Examine st) (w\<lparr>running := remove1 i (running w)\<rparr>)))
      else None)"

text \<open>
  An interleaving of \<^verbatim>\<open>RunImpl\<close> with the completions of the pipelines is a list of events;
  \<open>exec\<close> runs it, and is \<open>None\<close> when the list is not an interleaving of the program.
\<close>

datatype event = Orchestrator | Completion nat XRootDStatus

fun step ::
    "ParallelOperation \<Rightarrow> uint16_t \<Rightarrow> event \<Rightarrow> 'h activation \<Rightarrow> 'h activation option" where
  "step op t Orchestrator w = RunImpl_step op t w"
| "step op t (Completion i st) w = continuation i st w"

fun exec ::
    "ParallelOperation \<Rightarrow> uint16_t \<Rightarrow> event list \<Rightarrow> 'h activation \<Rightarrow> 'h activation option" where
  "exec op t [] w = Some w"
| "exec op t (e # es) w =
     (case step op t e w of None \<Rightarrow> None | Some w' \<Rightarrow> exec op t es w')"

text \<open>The activation is over: \<^verbatim>\<open>RunImpl\<close> has returned and no pipeline is running.\<close>

fun finished :: "'h activation \<Rightarrow> bool" where
  "finished w = (case pc w of Returned r \<Rightarrow> running w = [] | Loop i \<Rightarrow> False)"

text \<open>The statuses with which the pipelines complete in an interleaving, in order.\<close>

fun completions :: "event list \<Rightarrow> XRootDStatus list" where
  "completions [] = []"
| "completions (Orchestrator # es) = completions es"
| "completions (Completion i st # es) = st # completions es"

subsection \<open>The atomic operations of the continuations\<close>

text \<open>
  The calls of \<^verbatim>\<open>Ctx::Examine\<close> of several continuations can overlap. What they share is
  touched by atomic operations only: \<^verbatim>\<open>fetch_sub\<close> and \<^verbatim>\<open>fetch_add\<close> on the counters of the policy,
  \<^verbatim>\<open>exchange\<close> on the handler, and the count of the shared pointer. The model of this
  subsection has one step for each of them. A started pipeline is \<open>Running\<close> until it
  completes with a status; its continuation is then about to call \<^verbatim>\<open>policy->Examine\<close>
  (\<open>Examining\<close>), has decremented \<^verbatim>\<open>cnt\<close> and is about to increment \<^verbatim>\<open>succeeded\<close> (\<open>Counted\<close>, with
  the value \<^verbatim>\<open>nb\<close>), has the result of \<^verbatim>\<open>policy->Examine\<close> (\<open>Decided\<close>), has exchanged the handler
  for \<^verbatim>\<open>nullptr\<close> in \<^verbatim>\<open>Handle\<close> and holds what was there (\<open>Exchanged\<close>), has returned from
  \<^verbatim>\<open>Ctx::Examine\<close> (\<open>Returning\<close>), and is destroyed with its shared pointer (\<open>Destroyed\<close>).
\<close>

datatype 'h task =
    Running
  | Examining XRootDStatus
  | Counted XRootDStatus size_t
  | Decided XRootDStatus bool
  | Exchanged XRootDStatus "'h option"
  | Returning
  | Destroyed

record 'h atomic =
  a_ctx :: "'h Ctx"
  a_use_count :: nat
  a_responses :: "'h calls"
  a_pc :: pc
  tasks :: "'h task list"

text \<open>
  \<^verbatim>\<open>policy->Examine( st )\<close> up to and including its first atomic operation, the decrement of
  \<^verbatim>\<open>cnt\<close> (\<^verbatim>\<open>AllPolicy\<close> has none): the state of the continuation after it, and the policy.
\<close>

fun Examine_first :: "XRootDStatus \<Rightarrow> PolicyExecutor \<Rightarrow> 'h task \<times> PolicyExecutor" where
  "Examine_first st AllPolicy =
     (if IsOK st then (Decided st False, AllPolicy) else (Decided st True, AllPolicy))"
| "Examine_first st (AnyPolicy cnt) =
     (let nb = cnt; p = AnyPolicy (cnt - 1) in
      if IsOK st then (Decided st True, p)
      else if nb = 1 then (Decided st True, p)
      else (Decided st False, p))"
| "Examine_first st (SomePolicy cnt succeeded threshold) =
     (let nb = cnt; p = SomePolicy (cnt - 1) succeeded threshold in
      if IsOK st then (Counted st nb, p)
      else if nb = threshold then (Decided st True, p)
      else (Decided st False, p))"
| "Examine_first st (AtLeastPolicy cnt threshold) =
     (let nb = cnt; p = AtLeastPolicy (cnt - 1) threshold in
      if IsOK st then (Decided st False, p)
      else if nb = threshold then (Decided st True, p)
      else (Decided st False, p))"

text \<open>
  The rest of \<^verbatim>\<open>SomePolicy::Examine\<close> on a success, with its second atomic operation
  \<^verbatim>\<open>succeeded.fetch_add( 1 )\<close>. No other policy gets there.
\<close>

fun Examine_second :: "XRootDStatus \<Rightarrow> PolicyExecutor \<Rightarrow> 'h task \<times> PolicyExecutor" where
  "Examine_second st (SomePolicy cnt succeeded threshold) =
     (let s = succeeded; p = SomePolicy cnt (succeeded + 1) threshold in
      if s + 1 = threshold then (Decided st True, p) else (Decided st False, p))"
| "Examine_second st p = (Decided st False, p)"

text \<open>
  The release of a shared pointer, the start of \<^verbatim>\<open>RunImpl\<close> and its steps are as before. The
  destructor runs when no other owner is left, so its \<^verbatim>\<open>Handle\<close> is one step.
\<close>

definition a_release :: "'h atomic \<Rightarrow> 'h atomic" where
  "a_release s =
     (if a_use_count s = 1
      then (case Ctx_dtor (a_ctx s) of
              (c, out) \<Rightarrow> s\<lparr>a_ctx := c, a_use_count := 0, a_responses := a_responses s @ out\<rparr>)
      else s\<lparr>a_use_count := a_use_count s - 1\<rparr>)"

definition a_enter :: "ParallelOperation \<Rightarrow> 'h option \<Rightarrow> 'h atomic" where
  "a_enter op handler =
     (let p = (case policy op of None \<Rightarrow> AllPolicy | Some p \<Rightarrow> p) in
      \<lparr>a_ctx = new_Ctx handler p, a_use_count = 1, a_responses = [],
       a_pc = Loop 0, tasks = []\<rparr>)"

definition a_RunImpl_step ::
    "ParallelOperation \<Rightarrow> uint16_t \<Rightarrow> 'h atomic \<Rightarrow> 'h atomic option" where
  "a_RunImpl_step op pipelineTimeout s =
     (let t = RunImpl_timeout op pipelineTimeout in
      case a_pc s of
        Returned r \<Rightarrow> None
      | Loop i \<Rightarrow>
          if i < length (pipelines op) then
            (case Run (pipelines op ! i) t of
               Started \<Rightarrow>
                 Some (s\<lparr>a_use_count := a_use_count s + 1, a_pc := Loop (i + 1),
                         tasks := tasks s @ [Running]\<rparr>)
             | ThrowPipelineException err \<Rightarrow>
                 Some (a_release (s\<lparr>a_pc := Returned err\<rparr>))
             | ThrowException what \<Rightarrow>
                 Some (a_release (s\<lparr>a_pc := Returned (XRootDStatus stError what)\<rparr>)))
          else Some (a_release (s\<lparr>a_pc := Returned XRootDStatus_default\<rparr>)))"

text \<open>
  The events: a step of \<^verbatim>\<open>RunImpl\<close>, the completion of a running pipeline with a status, and
  the next atomic step of the continuation of a pipeline.
\<close>

datatype a_event = Launch | Complete nat XRootDStatus | Advance nat

definition a_task_step :: "nat \<Rightarrow> 'h atomic \<Rightarrow> 'h atomic option" where
  "a_task_step i s =
     (if i < length (tasks s) then
        (case tasks s ! i of
           Running \<Rightarrow> None
         | Examining st \<Rightarrow>
             (case Examine_first st (Ctx_policy (a_ctx s)) of
                (tk, p) \<Rightarrow> Some (s\<lparr>a_ctx := (a_ctx s)\<lparr>Ctx_policy := p\<rparr>, tasks := (tasks s)[i := tk]\<rparr>))
         | Counted st nb \<Rightarrow>
             (case Examine_second st (Ctx_policy (a_ctx s)) of
                (tk, p) \<Rightarrow> Some (s\<lparr>a_ctx := (a_ctx s)\<lparr>Ctx_policy := p\<rparr>, tasks := (tasks s)[i := tk]\<rparr>))
         | Decided st decided \<Rightarrow>
             if decided
             then Some (s\<lparr>a_ctx := (a_ctx s)\<lparr>Ctx_handler := None\<rparr>,
                         tasks := (tasks s)[i := Exchanged st (Ctx_handler (a_ctx s))]\<rparr>)
             else Some (s\<lparr>tasks := (tasks s)[i := Returning]\<rparr>)
         | Exchanged st hdlr \<Rightarrow>
             (case hdlr of
                Some h \<Rightarrow> Some (s\<lparr>a_responses := a_responses s @ [(h, st)],
                                   tasks := (tasks s)[i := Returning]\<rparr>)
              | None \<Rightarrow> Some (s\<lparr>tasks := (tasks s)[i := Returning]\<rparr>))
         | Returning \<Rightarrow> Some (a_release (s\<lparr>tasks := (tasks s)[i := Destroyed]\<rparr>))
         | Destroyed \<Rightarrow> None)
      else None)"

definition a_complete :: "nat \<Rightarrow> XRootDStatus \<Rightarrow> 'h atomic \<Rightarrow> 'h atomic option" where
  "a_complete i st s =
     (if i < length (tasks s) \<and> tasks s ! i = Running
      then Some (s\<lparr>tasks := (tasks s)[i := Examining st]\<rparr>)
      else None)"

fun a_step :: "ParallelOperation \<Rightarrow> uint16_t \<Rightarrow> a_event \<Rightarrow> 'h atomic \<Rightarrow> 'h atomic option" where
  "a_step op t Launch s = a_RunImpl_step op t s"
| "a_step op t (Complete i st) s = a_complete i st s"
| "a_step op t (Advance i) s = a_task_step i s"

fun a_exec ::
    "ParallelOperation \<Rightarrow> uint16_t \<Rightarrow> a_event list \<Rightarrow> 'h atomic \<Rightarrow> 'h atomic option" where
  "a_exec op t [] s = Some s"
| "a_exec op t (e # es) s =
     (case a_step op t e s of None \<Rightarrow> None | Some s' \<Rightarrow> a_exec op t es s')"

fun a_finished :: "'h atomic \<Rightarrow> bool" where
  "a_finished s =
     (case a_pc s of Returned r \<Rightarrow> list_all (\<lambda>tk. tk = Destroyed) (tasks s) | Loop i \<Rightarrow> False)"

text \<open>
  For the invariant: a continuation that has taken the handler out of the \<^verbatim>\<open>Ctx\<close> and has not
  called it yet holds it; a continuation owns a shared pointer until it is destroyed.
\<close>

fun holds :: "'h task \<Rightarrow> nat" where
  "holds (Exchanged st (Some h)) = 1"
| "holds tk = 0"

fun alive :: "'h task \<Rightarrow> nat" where
  "alive Destroyed = 0"
| "alive tk = 1"

fun owned_by :: "'h \<Rightarrow> 'h task \<Rightarrow> bool" where
  "owned_by h (Exchanged st (Some g)) = (g = h)"
| "owned_by h tk = True"

text \<open>
  The owners of the \<^verbatim>\<open>Ctx\<close>, and the invariant: the handler is in the \<^verbatim>\<open>Ctx\<close>, or held by one
  continuation, or has been called once, and exactly one of these; it is the handler \<open>h\<close>
  of the activation; and it has left the \<^verbatim>\<open>Ctx\<close> when no owner is left.
\<close>

definition a_owners :: "'h atomic \<Rightarrow> nat" where
  "a_owners s = (case a_pc s of Loop i \<Rightarrow> 1 | Returned r \<Rightarrow> 0) + sum_list (map alive (tasks s))"

definition a_safe :: "'h \<Rightarrow> 'h atomic \<Rightarrow> bool" where
  "a_safe h s =
     ((case Ctx_handler (a_ctx s) of Some g \<Rightarrow> 1 | None \<Rightarrow> 0) + sum_list (map holds (tasks s)) +
        length (a_responses s) = (1::nat) \<and>
      (\<forall>g. Ctx_handler (a_ctx s) = Some g \<longrightarrow> g = h) \<and>
      (\<forall>tk \<in> set (tasks s). owned_by h tk) \<and>
      (\<forall>g st. (g, st) \<in> set (a_responses s) \<longrightarrow> g = h))"

definition a_inv :: "'h \<Rightarrow> 'h atomic \<Rightarrow> bool" where
  "a_inv h s =
     (a_use_count s = a_owners s \<and> a_safe h s \<and>
      (a_use_count s = 0 \<longrightarrow> Ctx_handler (a_ctx s) = None))"

subsection \<open>Notions for the statements\<close>

text \<open>
  The owners of the \<^verbatim>\<open>Ctx\<close>: the local pointer of \<^verbatim>\<open>RunImpl\<close> until it returns, and the
  continuation of each running pipeline.
\<close>

definition holders :: "'h activation \<Rightarrow> nat" where
  "holders w = (case pc w of Loop i \<Rightarrow> 1 | Returned r \<Rightarrow> 0) + length (running w)"

text \<open>What an event does to the \<^verbatim>\<open>Ctx\<close> before any release: a continuation examines.\<close>

fun examined :: "event \<Rightarrow> 'h Ctx \<Rightarrow> 'h Ctx \<times> 'h calls" where
  "examined Orchestrator c = (c, [])"
| "examined (Completion i st) c = Ctx_Examine st c"

text \<open>The policy object after it has examined the statuses of a list, in order.\<close>

fun policy_after :: "XRootDStatus list \<Rightarrow> PolicyExecutor \<Rightarrow> PolicyExecutor" where
  "policy_after [] p = p"
| "policy_after (st # sts) p = policy_after sts (snd (Examine st p))"

text \<open>The status that \<^verbatim>\<open>RunImpl\<close> returns from its \<^verbatim>\<open>catch\<close> blocks when a launch throws.\<close>

fun caught :: "launch \<Rightarrow> XRootDStatus option" where
  "caught Started = None"
| "caught (ThrowPipelineException err) = Some err"
| "caught (ThrowException what) = Some (XRootDStatus stError what)"

text \<open>
  In the words of the spec: with \<open>n\<close> tasks, of which those of the list \<open>observed\<close> have
  completed, at least \<open>k\<close> successes are still reachable when the successes observed and the
  tasks still pending are together at least \<open>k\<close>.
\<close>

definition reachable_spec :: "nat \<Rightarrow> nat \<Rightarrow> XRootDStatus list \<Rightarrow> bool" where
  "reachable_spec k n observed =
     (k \<le> length (filter IsOK observed) + (n - length observed))"

text \<open>
  When the launch of pipeline \<open>i\<close> throws and \<^verbatim>\<open>RunImpl\<close> returns \<open>err\<close> for it: the loop is
  at most at \<open>i\<close>, a returned status is \<open>err\<close>, and only pipelines before \<open>i\<close> run.
\<close>

definition launch_fault_inv :: "nat \<Rightarrow> XRootDStatus \<Rightarrow> 'h activation \<Rightarrow> bool" where
  "launch_fault_inv i err w =
     ((case pc w of Loop j \<Rightarrow> j \<le> i | Returned r \<Rightarrow> r = err) \<and> set (running w) \<subseteq> {..<i})"


subsection \<open>Example pipelines\<close>

text \<open>A pipeline that starts whatever the timeout, and one whose launch throws.\<close>

definition starting :: "string \<Rightarrow> Pipeline" where
  "starting name = \<lparr>Pipeline_ToString = name, Run = (\<lambda>t. Started)\<rparr>"

definition throwing :: "string \<Rightarrow> XRootDStatus \<Rightarrow> Pipeline" where
  "throwing name err = \<lparr>Pipeline_ToString = name, Run = (\<lambda>t. ThrowPipelineException err)\<rparr>"

definition ok :: XRootDStatus where
  "ok = XRootDStatus stOK []"

definition failed :: "string \<Rightarrow> XRootDStatus" where
  "failed what = XRootDStatus stError what"

section \<open>Properties of the handler guard\<close>

lemma Handle_fst: "fst (Handle st c) = c\<lparr>Ctx_handler := None\<rparr>"
  by (simp add: Handle_def Let_def split: option.splits)

lemma Handle_snd_Some: "Ctx_handler c = Some h \<Longrightarrow> snd (Handle st c) = [(h, st)]"
  by (simp add: Handle_def Let_def)

lemma Handle_snd_None: "Ctx_handler c = None \<Longrightarrow> snd (Handle st c) = []"
  by (simp add: Handle_def Let_def)

lemma Ctx_Examine_fst:
  "fst (Ctx_Examine st c) =
     (if fst (Examine st (Ctx_policy c))
      then \<lparr>Ctx_handler = None, Ctx_policy = snd (Examine st (Ctx_policy c))\<rparr>
      else \<lparr>Ctx_handler = Ctx_handler c, Ctx_policy = snd (Examine st (Ctx_policy c))\<rparr>)"
  by (simp add: Ctx_Examine_def Let_def Handle_fst split: prod.splits)

lemma Ctx_Examine_snd:
  "snd (Ctx_Examine st c) =
     (if fst (Examine st (Ctx_policy c))
      then (case Ctx_handler c of Some h \<Rightarrow> [(h, st)] | None \<Rightarrow> [])
      else [])"
  by (simp add: Ctx_Examine_def Let_def Handle_def split: prod.splits option.splits)

lemma Examine_seq_Cons_fst:
  "fst (Examine_seq (st # sts) c) = fst (Examine_seq sts (fst (Ctx_Examine st c)))"
  by (simp split: prod.splits)

lemma Examine_seq_Cons_snd:
  "snd (Examine_seq (st # sts) c) =
     snd (Ctx_Examine st c) @ snd (Examine_seq sts (fst (Ctx_Examine st c)))"
  by (simp split: prod.splits)

lemma Examine_seq_append_fst:
  "fst (Examine_seq (xs @ ys) c) = fst (Examine_seq ys (fst (Examine_seq xs c)))"
  by (induction xs arbitrary: c) (simp_all add: Examine_seq_Cons_fst del: Examine_seq.simps(2))

lemma Examine_seq_append_snd:
  "snd (Examine_seq (xs @ ys) c) =
     snd (Examine_seq xs c) @ snd (Examine_seq ys (fst (Examine_seq xs c)))"
  by (induction xs arbitrary: c)
     (simp_all add: Examine_seq_Cons_fst Examine_seq_Cons_snd del: Examine_seq.simps(2))

lemma Ctx_life_alt:
  "Ctx_life sts c = snd (Examine_seq sts c) @ snd (Ctx_dtor (fst (Examine_seq sts c)))"
  by (simp add: Ctx_life_def split: prod.splits)

text \<open>Once the handler is taken, nothing is called any more.\<close>

lemma Examine_seq_None:
  "Ctx_handler c = None \<Longrightarrow>
     Ctx_handler (fst (Examine_seq sts c)) = None \<and> snd (Examine_seq sts c) = []"
proof (induction sts arbitrary: c)
  case Nil
  then show ?case by simp
next
  case (Cons st sts)
  have "Ctx_handler (fst (Ctx_Examine st c)) = None"
    using Cons.prems by (simp add: Ctx_Examine_fst)
  moreover have "snd (Ctx_Examine st c) = []"
    using Cons.prems by (simp add: Ctx_Examine_snd)
  ultimately show ?case
    using Cons.IH [of "fst (Ctx_Examine st c)"]
    by (simp add: Examine_seq_Cons_fst Examine_seq_Cons_snd del: Examine_seq.simps(2))
qed

text \<open>The slot and the calls: either the handler is still there and nothing was called,
  or it is gone and it was called once.\<close>

lemma Examine_seq_once:
  "Ctx_handler c = Some h \<Longrightarrow>
     (Ctx_handler (fst (Examine_seq sts c)) = Some h \<and> snd (Examine_seq sts c) = []) \<or>
     (Ctx_handler (fst (Examine_seq sts c)) = None \<and> (\<exists>st \<in> set sts. snd (Examine_seq sts c) = [(h, st)]))"
proof (induction sts arbitrary: c)
  case Nil
  then show ?case by simp
next
  case (Cons st sts)
  show ?case
  proof (cases "fst (Examine st (Ctx_policy c))")
    case True
    then have h: "Ctx_handler (fst (Ctx_Examine st c)) = None"
      and o: "snd (Ctx_Examine st c) = [(h, st)]"
      using Cons.prems by (simp_all add: Ctx_Examine_fst Ctx_Examine_snd)
    show ?thesis
      using Examine_seq_None [OF h, of sts] o
      by (simp add: Examine_seq_Cons_fst Examine_seq_Cons_snd del: Examine_seq.simps(2))
  next
    case False
    then have h: "Ctx_handler (fst (Ctx_Examine st c)) = Some h"
      and o: "snd (Ctx_Examine st c) = []"
      using Cons.prems by (simp_all add: Ctx_Examine_fst Ctx_Examine_snd)
    show ?thesis
      using Cons.IH [OF h] o
      by (auto simp add: Examine_seq_Cons_fst Examine_seq_Cons_snd simp del: Examine_seq.simps(2))
  qed
qed

lemma Ctx_life_once:
  assumes "Ctx_handler c = Some h"
  shows "\<exists>st. Ctx_life sts c = [(h, st)]"
  using Examine_seq_once [OF assms, of sts]
  by (auto simp add: Ctx_life_alt Ctx_dtor_def Handle_snd_Some Handle_snd_None)

section \<open>Properties of an activation\<close>



lemma on_ctx_simps:
  "ctx (on_ctx f w) = fst (f (ctx w))"
  "responses (on_ctx f w) = responses w @ snd (f (ctx w))"
  "use_count (on_ctx f w) = use_count w"
  "pc (on_ctx f w) = pc w"
  "running (on_ctx f w) = running w"
  by (simp_all add: on_ctx_def split: prod.splits)

lemma release_simps:
  "pc (release w) = pc w"
  "running (release w) = running w"
  "use_count (release w) = use_count w - 1"
  "ctx (release w) = (if use_count w = 1 then fst (Ctx_dtor (ctx w)) else ctx w)"
  "responses (release w) =
     (if use_count w = 1 then responses w @ snd (Ctx_dtor (ctx w)) else responses w)"
  by (simp_all add: release_def on_ctx_simps)


lemma step_effect:
  assumes "use_count w = holders w" and "step op t e w = Some w'"
  shows "use_count w' = holders w'"
    and "0 < use_count w"
    and "ctx w' = (if use_count w' = 0 then fst (Ctx_dtor (fst (examined e (ctx w))))
                   else fst (examined e (ctx w)))"
    and "responses w' = responses w @ snd (examined e (ctx w)) @
           (if use_count w' = 0 then snd (Ctx_dtor (fst (examined e (ctx w)))) else [])"
proof -
  show pos: "0 < use_count w"
    using assms
    by (cases e) (auto simp add: holders_def RunImpl_step_def continuation_def Let_def
        split: pc.splits if_splits dest: length_pos_if_in_set)
  show "use_count w' = holders w'"
  proof (cases e)
    case Orchestrator
    with assms show ?thesis
      by (auto simp add: holders_def RunImpl_step_def Let_def release_simps
          split: pc.splits if_splits launch.splits)
  next
    case (Completion i st)
    with assms have i: "i \<in> set (running w)"
      and w': "w' = release (on_ctx (Ctx_Examine st) (w\<lparr>running := remove1 i (running w)\<rparr>))"
      by (auto simp add: continuation_def split: if_splits)
    from i have "0 < length (running w)"
      by (rule length_pos_if_in_set)
    with assms(1) i show ?thesis
      by (simp add: w' holders_def release_simps on_ctx_simps length_remove1 split: pc.splits)
  qed
  show "ctx w' = (if use_count w' = 0 then fst (Ctx_dtor (fst (examined e (ctx w))))
                   else fst (examined e (ctx w)))"
    using assms pos
    by (cases e) (auto simp add: RunImpl_step_def continuation_def Let_def release_simps on_ctx_simps
        split: pc.splits if_splits launch.splits)
  show "responses w' = responses w @ snd (examined e (ctx w)) @
           (if use_count w' = 0 then snd (Ctx_dtor (fst (examined e (ctx w)))) else [])"
    using assms pos
    by (cases e) (auto simp add: RunImpl_step_def continuation_def Let_def release_simps on_ctx_simps
        split: pc.splits if_splits launch.splits)
qed

lemma step_dead:
  assumes "use_count w = holders w" and "use_count w = 0"
  shows "step op t e w = None"
  using assms
  by (cases e) (auto simp add: holders_def RunImpl_step_def continuation_def Let_def split: pc.splits)

lemma exec_dead:
  assumes "use_count w = holders w" and "use_count w = 0" and "exec op t es w = Some w'"
  shows "es = []"
  using assms step_dead [OF assms(1,2)]
  by (cases es) (auto split: option.splits)

lemma completions_examined:
  "fst (Examine_seq (completions (e # es)) c) =
     fst (Examine_seq (completions es) (fst (examined e c)))"
  "snd (Examine_seq (completions (e # es)) c) =
     snd (examined e c) @ snd (Examine_seq (completions es) (fst (examined e c)))"
  by (cases e; simp add: Examine_seq_Cons_fst Examine_seq_Cons_snd del: Examine_seq.simps(2))+

lemma exec_effect:
  assumes "use_count w = holders w" and "exec op t es w = Some w'"
  shows "use_count w' = holders w' \<and>
         ctx w' = (if use_count w' = 0 \<and> 0 < use_count w
                   then fst (Ctx_dtor (fst (Examine_seq (completions es) (ctx w))))
                   else fst (Examine_seq (completions es) (ctx w))) \<and>
         responses w' = responses w @ snd (Examine_seq (completions es) (ctx w)) @
           (if use_count w' = 0 \<and> 0 < use_count w
            then snd (Ctx_dtor (fst (Examine_seq (completions es) (ctx w)))) else [])"
  using assms
proof (induction es arbitrary: w)
  case Nil
  then show ?case by auto
next
  case (Cons e es)
  from Cons.prems(2) obtain w1 where s: "step op t e w = Some w1" and x: "exec op t es w1 = Some w'"
    by (auto split: option.splits)
  note eff = step_effect [OF Cons.prems(1) s]
  show ?case
  proof (cases "use_count w1 = 0")
    case True
    with exec_dead [OF eff(1) True x] x have "es = []" and "w' = w1" by simp_all
    then show ?thesis
      using eff True by (simp add: completions_examined)
  next
    case False
    from Cons.IH [OF eff(1) x] False eff(2,3,4)
    show ?thesis
      by (simp add: completions_examined)
  qed
qed

lemma finished_iff:
  "use_count w = holders w \<Longrightarrow> finished w \<longleftrightarrow> use_count w = 0"
  by (auto simp add: holders_def split: pc.splits)

lemma RunImpl_enter_simps:
  "ctx (RunImpl_enter op hdlr) = new_Ctx hdlr (case policy op of None \<Rightarrow> AllPolicy | Some p \<Rightarrow> p)"
  "use_count (RunImpl_enter op hdlr) = 1"
  "responses (RunImpl_enter op hdlr) = []"
  "pc (RunImpl_enter op hdlr) = Loop 0"
  "running (RunImpl_enter op hdlr) = []"
  by (simp_all add: RunImpl_enter_def)

text \<open>The handler calls of an activation are those of the life of its Ctx.\<close>

lemma exec_RunImpl:
  assumes "exec op t es (RunImpl_enter op hdlr) = Some w"
  shows "responses w =
           (if finished w then Ctx_life (completions es) (ctx (RunImpl_enter op hdlr))
            else snd (Examine_seq (completions es) (ctx (RunImpl_enter op hdlr))))"
proof -
  have i: "use_count (RunImpl_enter op hdlr) = holders (RunImpl_enter op hdlr)"
    by (simp add: holders_def RunImpl_enter_simps)
  from exec_effect [OF i assms] finished_iff [of w]
  show ?thesis
    by (simp add: RunImpl_enter_simps Ctx_life_alt del: finished.simps)
qed

text \<open>
  As long as the activation is not over, the program can make a step: \<^verbatim>\<open>RunImpl\<close> goes on, or
  a running pipeline completes.
\<close>

lemma step_enabled:
  assumes "\<not> finished w"
  shows "\<exists>e. step op t e (w :: 'h activation) \<noteq> None"
proof (cases "pc w")
  case (Loop i)
  then have "step op t Orchestrator w \<noteq> None"
    by (simp add: RunImpl_step_def Let_def split: launch.splits)
  then show ?thesis ..
next
  case (Returned r)
  with assms obtain i where "i \<in> set (running w)"
    by (cases "running w") auto
  then have "step op t (Completion i XRootDStatus_default) w \<noteq> None"
    by (simp add: continuation_def)
  then show ?thesis ..
qed

text \<open>
  Two pipelines under the policy \<^verbatim>\<open>Any\<close>: the first one fails before the second one is
  launched, the second one succeeds after \<^verbatim>\<open>RunImpl\<close> has returned.
\<close>

lemma exec_any_example:
  "exec (Any (fst (ParallelOperation_ctor [starting ''a'', starting ''b''] 0))) 0
        [Orchestrator, Completion 0 (failed ''x''), Orchestrator, Orchestrator, Completion 1 ok]
        (RunImpl_enter (Any (fst (ParallelOperation_ctor [starting ''a'', starting ''b''] 0)))
          (Some (7::nat)))
   = Some \<lparr>ctx = \<lparr>Ctx_handler = None, Ctx_policy = AnyPolicy 0\<rparr>, use_count = 0,
           responses = [(7, ok)], pc = Returned XRootDStatus_default, running = []\<rparr>"
  by (simp add: Any_def ParallelOperation_ctor_def starting_def RunImpl_enter_def new_Ctx_def
      RunImpl_step_def RunImpl_timeout_def continuation_def release_def on_ctx_def
      Ctx_Examine_def Ctx_dtor_def Handle_def new_AnyPolicy_def size_pipelines_def IsOK_def
      ok_def failed_def Let_def)

text \<open>A launch that throws: the steps of the program keep \<open>launch_fault_inv\<close>.\<close>

lemma step_launch_fault:
  assumes i: "i < length (pipelines op)"
    and before: "\<forall>j<i. Run (pipelines op ! j) (RunImpl_timeout op t) = Started"
    and at: "caught (Run (pipelines op ! i) (RunImpl_timeout op t)) = Some err"
    and inv: "launch_fault_inv i err w"
    and s: "step op t e w = Some w'"
  shows "launch_fault_inv i err w'"
proof (cases e)
  case Orchestrator
  from s Orchestrator obtain j where j: "pc w = Loop j"
    by (cases "pc w") (auto simp add: RunImpl_step_def Let_def)
  with inv have le: "j \<le> i" and r: "set (running w) \<subseteq> {..<i}"
    by (simp_all add: launch_fault_inv_def)
  show ?thesis
  proof (cases "j = i")
    case True
    with s Orchestrator j i at r show ?thesis
      by (cases "Run (pipelines op ! i) (RunImpl_timeout op t)")
         (auto simp add: RunImpl_step_def Let_def launch_fault_inv_def release_simps)
  next
    case False
    with le have lt: "j < i" by simp
    with before have "Run (pipelines op ! j) (RunImpl_timeout op t) = Started" by simp
    with s Orchestrator j i lt r show ?thesis
      by (auto simp add: RunImpl_step_def Let_def launch_fault_inv_def)
  qed
next
  case (Completion k st)
  have "set (remove1 k (running w)) \<subseteq> set (running w)"
    by (rule set_remove1_subset)
  with Completion s inv show ?thesis
    by (auto simp add: continuation_def launch_fault_inv_def release_simps on_ctx_simps
        split: if_splits pc.splits)
qed

lemma exec_launch_fault:
  assumes i: "i < length (pipelines op)"
    and before: "\<forall>j<i. Run (pipelines op ! j) (RunImpl_timeout op t) = Started"
    and at: "caught (Run (pipelines op ! i) (RunImpl_timeout op t)) = Some err"
  shows "launch_fault_inv i err w \<Longrightarrow> exec op t es w = Some w' \<Longrightarrow> launch_fault_inv i err w'"
proof (induction es arbitrary: w)
  case Nil
  then show ?case by simp
next
  case (Cons e es)
  from Cons.prems(2) obtain w1 where s: "step op t e w = Some w1" and x: "exec op t es w1 = Some w'"
    by (auto split: option.splits)
  from step_launch_fault [OF i before at Cons.prems(1) s] x show ?case
    by (rule Cons.IH)
qed

lemma launch_fault_inv_enter: "launch_fault_inv i err (RunImpl_enter op hdlr)"
  by (simp add: launch_fault_inv_def RunImpl_enter_simps)

text \<open>Every completion of an interleaving is the one of a pipeline that was running.\<close>

lemma exec_completions_Nil:
  assumes "\<And>w'. P w' \<Longrightarrow> running w' = []"
    and "\<And>e w' w''. P w' \<Longrightarrow> step op t e w' = Some w'' \<Longrightarrow> P w''"
  shows "P w \<Longrightarrow> exec op t es w = Some w1 \<Longrightarrow> completions es = []"
proof (induction es arbitrary: w)
  case Nil
  then show ?case by simp
next
  case (Cons e es)
  from Cons.prems(2) obtain w2 where s: "step op t e w = Some w2" and x: "exec op t es w2 = Some w1"
    by (auto split: option.splits)
  from assms(1) [OF Cons.prems(1)] s have "e = Orchestrator"
    by (cases e) (simp_all add: continuation_def)
  moreover from Cons.IH [OF assms(2) [OF Cons.prems(1) s] x] have "completions es = []" .
  ultimately show ?case by simp
qed

text \<open>
  \<^verbatim>\<open>RunImpl\<close> does return the failure: from the loop at \<open>j\<close>, its next steps start the
  pipelines up to \<open>i\<close>, and the step at \<open>i\<close>, where the launch throws, returns \<open>err\<close>.
\<close>

lemma RunImpl_returns_launch_fault:
  assumes i: "i < length (pipelines op)"
    and before: "\<forall>j<i. Run (pipelines op ! j) (RunImpl_timeout op t) = Started"
    and at: "caught (Run (pipelines op ! i) (RunImpl_timeout op t)) = Some err"
  shows "pc w = Loop j \<Longrightarrow> j \<le> i \<Longrightarrow> d = i - j \<Longrightarrow>
         \<exists>w'. exec op t (replicate (Suc d) Orchestrator) w = Some w' \<and> pc w' = Returned err"
proof (induction d arbitrary: w j)
  case 0
  then have j: "j = i" by simp
  from at have "Run (pipelines op ! i) (RunImpl_timeout op t) = ThrowPipelineException err \<or>
      (\<exists>what. Run (pipelines op ! i) (RunImpl_timeout op t) = ThrowException what \<and>
         err = XRootDStatus stError what)"
    by (cases "Run (pipelines op ! i) (RunImpl_timeout op t)") auto
  with 0(1) j i show ?case
    by (auto simp add: RunImpl_step_def Let_def release_simps)
next
  case (Suc d)
  then have lt: "j < i" by simp
  with before have s: "Run (pipelines op ! j) (RunImpl_timeout op t) = Started" by simp
  let ?w1 = "w\<lparr>use_count := use_count w + 1, pc := Loop (j + 1), running := running w @ [j]\<rparr>"
  from lt i Suc.prems(1) s have st: "step op t Orchestrator w = Some ?w1"
    by (simp add: RunImpl_step_def Let_def)
  have "\<exists>w'. exec op t (replicate (Suc d) Orchestrator) ?w1 = Some w' \<and> pc w' = Returned err"
    using lt Suc.prems(3) by (intro Suc.IH [of ?w1 "j + 1"]) simp_all
  with st show ?case
    by simp
qed

text \<open>
  A step of \<^verbatim>\<open>RunImpl\<close>, also the one that returns, calls nothing and leaves the \<^verbatim>\<open>Ctx\<close> as it
  is while a started pipeline is pending.
\<close>

lemma RunImpl_step_quiet_while_pending:
  assumes x: "exec op t es (RunImpl_enter op hdlr) = Some w"
    and r: "running w \<noteq> []"
    and s: "step op t Orchestrator w = Some w'"
  shows "responses w' = responses w" and "ctx w' = ctx w"
proof -
  have e: "use_count (RunImpl_enter op hdlr) = holders (RunImpl_enter op hdlr)"
    by (simp add: holders_def RunImpl_enter_simps)
  from exec_effect [OF e x] have u: "use_count w = holders w" by simp
  note eff = step_effect [OF u s]
  from s have "running w' = running w \<or> (\<exists>j. running w' = running w @ [j])"
    by (auto simp add: RunImpl_step_def Let_def release_simps split: pc.splits if_splits launch.splits)
  with r have "running w' \<noteq> []" by auto
  with eff(1) have "use_count w' \<noteq> 0"
    by (simp add: holders_def)
  with eff(3,4) show "responses w' = responses w" and "ctx w' = ctx w"
    by simp_all
qed

text \<open>
  When no started pipeline is pending, the return of \<^verbatim>\<open>RunImpl\<close> destroys the \<^verbatim>\<open>Ctx\<close>, whose
  destructor calls the handler if it is still there.
\<close>

lemma RunImpl_return_destroys:
  assumes x: "exec op t es (RunImpl_enter op hdlr) = Some w"
    and r: "running w = []"
    and s: "step op t Orchestrator w = Some w'" and p: "pc w' = Returned err"
  shows "responses w' = responses w @ snd (Ctx_dtor (ctx w))"
proof -
  have e: "use_count (RunImpl_enter op hdlr) = holders (RunImpl_enter op hdlr)"
    by (simp add: holders_def RunImpl_enter_simps)
  from exec_effect [OF e x] have u: "use_count w = holders w" by simp
  note eff = step_effect [OF u s]
  from s p r have "running w' = []"
    by (auto simp add: RunImpl_step_def Let_def release_simps split: pc.splits if_splits launch.splits)
  with eff(1) p have "use_count w' = 0"
    by (simp add: holders_def)
  with eff(4) show ?thesis by simp
qed

text \<open>
  The activation in which the launch of pipeline \<open>i\<close> throws, in every interleaving: what
  \<^verbatim>\<open>RunImpl\<close> returns, which pipelines run, and the calls of the handler.
\<close>

lemma exec_launch_fault_outcome:
  assumes i: "i < length (pipelines op)"
    and before: "\<forall>j<i. Run (pipelines op ! j) (RunImpl_timeout op t) = Started"
    and at: "caught (Run (pipelines op ! i) (RunImpl_timeout op t)) = Some err"
    and x: "exec op t es (RunImpl_enter op (Some h)) = Some w"
  shows "(\<forall>r. pc w = Returned r \<longrightarrow> r = err) \<and>
         (\<forall>j. pc w = Loop j \<longrightarrow> j \<le> i) \<and>
         set (running w) \<subseteq> {..<i} \<and>
         (finished w \<longrightarrow> (\<exists>st. responses w = [(h, st)])) \<and>
         (finished w \<longrightarrow> responses w = Ctx_life (completions es) (ctx (RunImpl_enter op (Some h)))) \<and>
         (i = 0 \<longrightarrow> (\<forall>r. pc w = Returned r \<longrightarrow> responses w = [(h, XRootDStatus_default)]))"
proof -
  note inv = exec_launch_fault [OF i before at]
  from inv [OF launch_fault_inv_enter x]
  have a: "(\<forall>r. pc w = Returned r \<longrightarrow> r = err) \<and> (\<forall>j. pc w = Loop j \<longrightarrow> j \<le> i) \<and> set (running w) \<subseteq> {..<i}"
    by (auto simp add: launch_fault_inv_def)
  let ?c = "ctx (RunImpl_enter op (Some h))"
  have h: "Ctx_handler ?c = Some h"
    by (simp add: RunImpl_enter_simps new_Ctx_def)
  from Ctx_life_once [OF h, of "completions es"]
  obtain st where st: "Ctx_life (completions es) ?c = [(h, st)]" ..
  note b = exec_RunImpl [OF x]
  have c: "responses w = [(h, XRootDStatus_default)]" if "i = 0" and r: "pc w = Returned r" for r
  proof -
    have "completions es = []"
    proof (rule exec_completions_Nil [where P = "launch_fault_inv 0 err" and op = op and t = t])
      show "running w' = []" if "launch_fault_inv 0 err w'" for w' :: "'a activation"
        using that by (simp add: launch_fault_inv_def)
      show "launch_fault_inv 0 err w''"
        if "launch_fault_inv 0 err w'" and "step op t e w' = Some w''" for e and w' w'' :: "'a activation"
        using step_launch_fault [OF i before at _ that(2)] that(1) \<open>i = 0\<close> by simp
      show "launch_fault_inv 0 err (RunImpl_enter op (Some h))"
        by (rule launch_fault_inv_enter)
      show "exec op t es (RunImpl_enter op (Some h)) = Some w" by (rule x)
    qed
    moreover from a that have "finished w" by simp
    ultimately show ?thesis
      using b h by (simp add: Ctx_life_alt Ctx_dtor_def Handle_snd_Some del: finished.simps)
  qed
  from a b st c show ?thesis
    by (simp del: finished.simps)
qed

section \<open>Properties of the policies\<close>

text \<open>
  Counters below \<open>2 ^ 64\<close> are represented exactly in a \<^verbatim>\<open>size_t\<close>.
\<close>

lemma size_t_of_nat_eq:
  "a < 2 ^ 64 \<Longrightarrow> (of_nat a :: size_t) = k \<longleftrightarrow> a = unat k"
  by (auto simp add: unat_of_nat)

lemma size_t_of_nat_diff:
  "j \<le> n \<Longrightarrow> (of_nat n :: size_t) - of_nat j = of_nat (n - j)"
  by simp

lemma size_t_of_nat_eq_diff:
  "j \<le> n \<Longrightarrow> n < 2 ^ 64 \<Longrightarrow> (of_nat n :: size_t) - of_nat j = k \<longleftrightarrow> n - j = unat k"
  using size_t_of_nat_eq [of "n - j" k] by simp

text \<open>
  What \<^verbatim>\<open>Examine\<close> returns and how it leaves the counters, policy by policy.
\<close>

lemma Examine_AllPolicy: "Examine st AllPolicy = (\<not> IsOK st, AllPolicy)"
  by simp

lemma Examine_AnyPolicy:
  "Examine st (AnyPolicy cnt) = (IsOK st \<or> cnt = 1, AnyPolicy (cnt - 1))"
  by (simp add: Let_def)

lemma Examine_SomePolicy:
  "Examine st (SomePolicy cnt s k) =
     (if IsOK st then (s + 1 = k, SomePolicy (cnt - 1) (s + 1) k)
      else (cnt = k, SomePolicy (cnt - 1) s k))"
  by (simp add: Let_def)

lemma Examine_AtLeastPolicy:
  "Examine st (AtLeastPolicy cnt k) = (\<not> IsOK st \<and> cnt = k, AtLeastPolicy (cnt - 1) k)"
  by (simp add: Let_def)

text \<open>
  The counters after a list of statuses: \<^verbatim>\<open>cnt\<close> has gone down by the length of the list,
  \<^verbatim>\<open>succeeded\<close> up by the number of successes.
\<close>

lemma policy_after_append:
  "policy_after (xs @ ys) p = policy_after ys (policy_after xs p)"
  by (induction xs arbitrary: p) simp_all

lemma policy_after_SomePolicy:
  "policy_after sts (SomePolicy cnt s k) =
     SomePolicy (cnt - of_nat (length sts)) (s + of_nat (length (filter IsOK sts))) k"
  by (induction sts arbitrary: cnt s) (simp_all add: Examine_SomePolicy del: Examine.simps)


lemma policy_after_AtLeastPolicy:
  "policy_after sts (AtLeastPolicy cnt k) = AtLeastPolicy (cnt - of_nat (length sts)) k"
  by (induction sts arbitrary: cnt) (simp_all add: Examine_AtLeastPolicy del: Examine.simps)

lemma policy_after_AllPolicy:
  "policy_after sts AllPolicy = AllPolicy"
  by (induction sts) (simp_all add: Examine_AllPolicy del: Examine.simps)



text \<open>
  \<^verbatim>\<open>AtLeastPolicy\<close> after a list of statuses; as long as no success is among them, the policy
  decides on a failure exactly when that failure makes the threshold unreachable.
\<close>

lemma Examine_policy_after_AtLeastPolicy:
  assumes "length pre < n" and "n < 2 ^ 64"
  shows "fst (Examine st (policy_after pre (new_AtLeastPolicy (of_nat n) k))) =
           (\<not> IsOK st \<and> n - length pre = unat k)"
proof -
  from assms(1) have "length pre \<le> n" by (rule less_imp_le)
  from size_t_of_nat_eq_diff [OF this assms(2), of k]
  show ?thesis
    by (simp only: new_AtLeastPolicy_def policy_after_AtLeastPolicy Examine_AtLeastPolicy fst_conv)
qed

lemma AtLeastPolicy_agrees_before_success:
  assumes pre: "length pre < n" and n: "n < 2 ^ 64"
    and st: "\<not> IsOK st" and none: "filter IsOK pre = []"
  shows "fst (Examine st (policy_after pre (new_AtLeastPolicy (of_nat n) k))) =
           (reachable_spec (unat k) n pre \<and> \<not> reachable_spec (unat k) n (pre @ [st]))"
proof -
  from pre have "(n - length pre = unat k) =
      (unat k \<le> n - length pre \<and> \<not> unat k \<le> n - (length pre + Suc 0))"
    by linarith
  with st none show ?thesis
    by (simp only: Examine_policy_after_AtLeastPolicy [OF pre n] reachable_spec_def
        filter_append filter.simps if_False append_Nil2 list.size length_append
        add_0 simp_thms)
qed

section \<open>Sequences of completions under a policy\<close>

text \<open>
  Under \<^verbatim>\<open>AllPolicy\<close> successes leave the \<^verbatim>\<open>Ctx\<close> as it is; the first status on which a policy
  decides is the one that the handler gets.
\<close>

lemma Examine_seq_AllPolicy_ok:
  assumes "Ctx_policy c = AllPolicy" and "\<forall>st\<in>set sts. IsOK st"
  shows "Examine_seq sts c = (c, [])"
  using assms
proof (induction sts)
  case Nil
  then show ?case by simp
next
  case (Cons st sts)
  then have "Ctx_Examine st c = (c, [])"
    by (simp add: Ctx_Examine_def)
  with Cons show ?case by simp
qed

lemma Examine_seq_decided:
  assumes "Ctx_handler c = Some h" and "fst (Examine st (Ctx_policy c))"
  shows "snd (Examine_seq (st # sts) c) = [(h, st)]"
    and "Ctx_handler (fst (Examine_seq (st # sts) c)) = None"
proof -
  have n: "Ctx_handler (fst (Ctx_Examine st c)) = None"
    using assms by (simp add: Ctx_Examine_fst)
  have o: "snd (Ctx_Examine st c) = [(h, st)]"
    using assms by (simp add: Ctx_Examine_snd)
  from Examine_seq_None [OF n, of sts] o
  show "snd (Examine_seq (st # sts) c) = [(h, st)]"
    and "Ctx_handler (fst (Examine_seq (st # sts) c)) = None"
    by (simp_all add: Examine_seq_Cons_fst Examine_seq_Cons_snd del: Examine_seq.simps(2))
qed

lemma Examine_seq_AllPolicy_failure:
  assumes c: "Ctx_policy c = AllPolicy" "Ctx_handler c = Some h"
    and pre: "\<forall>st\<in>set pre. IsOK st" and f: "\<not> IsOK f"
  shows "snd (Examine_seq (pre @ f # post) c) = [(h, f)]"
    and "Ctx_handler (fst (Examine_seq (pre @ f # post) c)) = None"
proof -
  have "fst (Examine f (Ctx_policy c))"
    using c f by simp
  from Examine_seq_decided [OF c(2) this, of post] Examine_seq_AllPolicy_ok [OF c(1) pre]
  show "snd (Examine_seq (pre @ f # post) c) = [(h, f)]"
    and "Ctx_handler (fst (Examine_seq (pre @ f # post) c)) = None"
    by (simp_all add: Examine_seq_append_fst Examine_seq_append_snd del: Examine_seq.simps(2))
qed

lemma ctx_RunImpl_enter_All:
  assumes "policy op = None \<or> policy op = Some AllPolicy"
  shows "ctx (RunImpl_enter op hdlr) = new_Ctx hdlr AllPolicy"
  using assms by (auto simp add: RunImpl_enter_simps)




text \<open>
  \<^verbatim>\<open>SomePolicy\<close> with threshold 1 and \<^verbatim>\<open>AnyPolicy\<close> call the handler alike: they agree on the
  failures, and on the first success, after which the handler is gone.
\<close>

lemma Some_one_Any_sim:
  assumes "Ctx_handler c1 = Ctx_handler c2"
    and "Ctx_policy c1 = SomePolicy cnt s 1" and "Ctx_policy c2 = AnyPolicy cnt"
    and "Ctx_handler c1 \<noteq> None \<longrightarrow> s = 0"
  shows "snd (Examine_seq sts c1) = snd (Examine_seq sts c2) \<and>
         Ctx_handler (fst (Examine_seq sts c1)) = Ctx_handler (fst (Examine_seq sts c2))"
  using assms
proof (induction sts arbitrary: c1 c2 cnt s)
  case Nil
  then show ?case by simp
next
  case (Cons st sts)
  let ?d1 = "fst (Ctx_Examine st c1)" and ?d2 = "fst (Ctx_Examine st c2)"
  have o: "snd (Ctx_Examine st c1) = snd (Ctx_Examine st c2)"
    using Cons.prems
    by (cases "Ctx_handler c2")
       (auto simp add: Ctx_Examine_snd Examine_SomePolicy Examine_AnyPolicy simp del: Examine.simps)
  have h: "Ctx_handler ?d1 = Ctx_handler ?d2"
    using Cons.prems
    by (cases "Ctx_handler c2")
       (auto simp add: Ctx_Examine_fst Examine_SomePolicy Examine_AnyPolicy simp del: Examine.simps)
  have p1: "Ctx_policy ?d1 = SomePolicy (cnt - 1) (if IsOK st then s + 1 else s) 1"
    using Cons.prems by (simp add: Ctx_Examine_fst Examine_SomePolicy del: Examine.simps)
  have p2: "Ctx_policy ?d2 = AnyPolicy (cnt - 1)"
    using Cons.prems by (simp add: Ctx_Examine_fst Examine_AnyPolicy del: Examine.simps)
  have z: "Ctx_handler ?d1 \<noteq> None \<longrightarrow> (if IsOK st then s + 1 else s) = 0"
    using Cons.prems
    by (auto simp add: Ctx_Examine_fst Examine_SomePolicy simp del: Examine.simps split: if_splits)
  from Cons.IH [OF h p1 p2 z] o show ?case
    by (simp add: Examine_seq_Cons_fst Examine_seq_Cons_snd del: Examine_seq.simps(2))
qed

lemma Some_one_equals_Any:
  "Ctx_life sts (new_Ctx hdlr (new_SomePolicy n 1)) = Ctx_life sts (new_Ctx hdlr (new_AnyPolicy n))"
proof -
  let ?c1 = "new_Ctx hdlr (new_SomePolicy n 1)" and ?c2 = "new_Ctx hdlr (new_AnyPolicy n)"
  have "snd (Examine_seq sts ?c1) = snd (Examine_seq sts ?c2) \<and>
        Ctx_handler (fst (Examine_seq sts ?c1)) = Ctx_handler (fst (Examine_seq sts ?c2))"
    by (rule Some_one_Any_sim [where cnt = n and s = 0])
       (simp_all add: new_Ctx_def new_SomePolicy_def new_AnyPolicy_def)
  then show ?thesis
    by (simp add: Ctx_life_alt Ctx_dtor_def Handle_def Let_def split: option.splits)
qed


section \<open>Runs of \<^verbatim>\<open>RunImpl\<close>\<close>

text \<open>
  The loop of \<^verbatim>\<open>RunImpl\<close> without any completion in between, when every launch starts its
  pipeline: after \<open>k\<close> iterations the pipelines before \<open>k\<close> are running, and after the last
  one \<^verbatim>\<open>RunImpl\<close> returns the default status. The policy plays no part in the steps of
  \<^verbatim>\<open>RunImpl\<close>.
\<close>

lemma exec_append:
  "exec op t (xs @ ys) w = (case exec op t xs w of None \<Rightarrow> None | Some w' \<Rightarrow> exec op t ys w')"
  by (induction xs arbitrary: w) (simp_all split: option.splits)

lemma replicate_snoc: "replicate (Suc k) x = replicate k x @ [x]"
  by (simp add: replicate_append_same)

lemma RunImpl_loop:
  assumes "\<forall>p\<in>set (pipelines op). Run p (RunImpl_timeout op t) = Started"
  shows "k \<le> length (pipelines op) \<Longrightarrow>
         exec op t (replicate k Orchestrator) (RunImpl_enter op hdlr) =
           Some ((RunImpl_enter op hdlr)\<lparr>use_count := 1 + k, pc := Loop k, running := [0..<k]\<rparr>)"
proof (induction k)
  case 0
  then show ?case by (simp add: RunImpl_enter_def)
next
  case (Suc k)
  then have k: "k < length (pipelines op)" by simp
  with assms have "Run (pipelines op ! k) (RunImpl_timeout op t) = Started" by simp
  with k Suc.IH show ?case
    unfolding replicate_snoc exec_append
    by (simp add: RunImpl_step_def RunImpl_enter_def)
qed

lemma RunImpl_all_started:
  assumes "\<forall>p\<in>set (pipelines op). Run p (RunImpl_timeout op t) = Started"
  shows "\<exists>w. exec op t (replicate (Suc (length (pipelines op))) Orchestrator)
                 (RunImpl_enter op hdlr) = Some w \<and>
              pc w = Returned XRootDStatus_default \<and>
              running w = [0..<length (pipelines op)]"
  using RunImpl_loop [OF assms order_refl, of hdlr]
  unfolding replicate_snoc exec_append
  by (simp add: RunImpl_step_def release_simps)

lemma RunImpl_step_policy:
  "RunImpl_step (op\<lparr>policy := p\<rparr>) t w = RunImpl_step op t w"
  by (simp add: RunImpl_step_def RunImpl_timeout_def split: pc.splits launch.splits)

text \<open>
  The definitions that a concrete run unfolds, and three runs of three pipelines under
  \<^verbatim>\<open>AllPolicy\<close>: all succeed; the same run before the last completion; the second one fails.
\<close>

lemmas activation_defs =
  ParallelOperation_ctor_def starting_def throwing_def RunImpl_enter_def new_Ctx_def
  RunImpl_step_def RunImpl_timeout_def continuation_def release_def on_ctx_def
  Ctx_Examine_def Ctx_dtor_def Ctx_life_def Handle_def IsOK_def ok_def failed_def Let_def
  All_def Any_def Some_policy_def AtLeast_def new_AnyPolicy_def new_SomePolicy_def
  new_AtLeastPolicy_def size_pipelines_def

lemma exec_all_ok_example:
  "exec (fst (ParallelOperation_ctor [starting ''a'', starting ''b'', starting ''c''] 0)) 0
        [Orchestrator, Orchestrator, Completion 1 ok, Orchestrator, Completion 0 ok,
         Orchestrator, Completion 2 ok]
        (RunImpl_enter
          (fst (ParallelOperation_ctor [starting ''a'', starting ''b'', starting ''c''] 0))
          (Some (7::nat)))
   = Some \<lparr>ctx = \<lparr>Ctx_handler = None, Ctx_policy = AllPolicy\<rparr>, use_count = 0,
           responses = [(7, XRootDStatus_default)], pc = Returned XRootDStatus_default,
           running = []\<rparr>"
  by (simp add: activation_defs)

lemma exec_all_ok_prefix_example:
  "exec (fst (ParallelOperation_ctor [starting ''a'', starting ''b'', starting ''c''] 0)) 0
        [Orchestrator, Orchestrator, Completion 1 ok, Orchestrator, Completion 0 ok,
         Orchestrator]
        (RunImpl_enter
          (fst (ParallelOperation_ctor [starting ''a'', starting ''b'', starting ''c''] 0))
          (Some (7::nat)))
   = Some \<lparr>ctx = \<lparr>Ctx_handler = Some 7, Ctx_policy = AllPolicy\<rparr>, use_count = 1,
           responses = [], pc = Returned XRootDStatus_default,
           running = [2]\<rparr>"
  by (simp add: activation_defs)

lemma exec_second_fails_example:
  "exec (All (fst (ParallelOperation_ctor [starting ''a'', starting ''b'', starting ''c''] 0))) 0
        [Orchestrator, Orchestrator, Orchestrator, Orchestrator,
         Completion 0 ok, Completion 1 (failed ''e''), Completion 2 ok]
        (RunImpl_enter
          (All (fst (ParallelOperation_ctor [starting ''a'', starting ''b'', starting ''c''] 0)))
          (Some (7::nat)))
   = Some \<lparr>ctx = \<lparr>Ctx_handler = None, Ctx_policy = AllPolicy\<rparr>, use_count = 0,
           responses = [(7, failed ''e'')], pc = Returned XRootDStatus_default,
           running = []\<rparr>"
  by (simp add: activation_defs)







section \<open>Exactly one call, at the level of the atomic operations\<close>

text \<open>
  Every step of the model of the atomic operations keeps the invariant \<open>a_inv\<close>. So in every
  interleaving of these steps the handler has been called at most once, and exactly once
  when \<^verbatim>\<open>RunImpl\<close> has returned and all continuations are destroyed.
\<close>

lemma sum_list_map_update:
  "i < length xs \<Longrightarrow>
     sum_list (map f (xs[i := y])) + f (xs ! i) = sum_list (map f xs) + (f y :: nat)"
proof (induction xs arbitrary: i)
  case Nil
  then show ?case by simp
next
  case (Cons x xs)
  then show ?case by (cases i) auto
qed

lemma holds_le_alive: "holds tk \<le> alive tk"
  by (cases tk rule: holds.cases) simp_all

lemma sum_list_holds_le_alive:
  "sum_list (map holds tks) \<le> sum_list (map alive tks)"
  by (induction tks) (auto intro: add_mono holds_le_alive)

lemma a_inv_enter: "a_inv h (a_enter op (Some h))"
  by (simp add: a_inv_def a_owners_def a_safe_def a_enter_def new_Ctx_def)

lemma a_release_simps:
  "a_pc (a_release s) = a_pc s"
  "tasks (a_release s) = tasks s"
  "a_use_count (a_release s) = a_use_count s - 1"
  "a_ctx (a_release s) = (if a_use_count s = 1 then fst (Ctx_dtor (a_ctx s)) else a_ctx s)"
  "a_responses (a_release s) =
     (if a_use_count s = 1 then a_responses s @ snd (Ctx_dtor (a_ctx s)) else a_responses s)"
  by (simp_all add: a_release_def split: prod.splits)

text \<open>The release by an owner that is counted no more keeps the invariant.\<close>

lemma a_inv_release:
  assumes u: "a_use_count s = Suc (a_owners s)" and safe: "a_safe h s"
  shows "a_inv h (a_release s)"
proof (cases "a_use_count s = 1")
  case True
  with u have o: "a_owners s = 0" by simp
  then have "sum_list (map alive (tasks s)) = 0"
    by (simp add: a_owners_def)
  with sum_list_holds_le_alive [of "tasks s"] have z: "sum_list (map holds (tasks s)) = 0"
    by simp
  have "a_use_count (a_release s) = a_owners (a_release s)"
    using True o by (simp add: a_owners_def a_release_simps)
  moreover have "a_safe h (a_release s)"
    using True z safe
    by (cases "Ctx_handler (a_ctx s)")
       (simp_all add: a_safe_def a_release_simps Ctx_dtor_def Handle_fst Handle_snd_Some
          Handle_snd_None)
  moreover have "Ctx_handler (a_ctx (a_release s)) = None"
    using True by (simp add: a_release_simps Ctx_dtor_def Handle_fst)
  ultimately show ?thesis
    by (simp add: a_inv_def)
next
  case False
  have "a_use_count (a_release s) = a_owners (a_release s)"
    using False u by (simp add: a_owners_def a_release_simps)
  moreover have "a_safe h (a_release s)"
    using False safe by (simp add: a_safe_def a_release_simps)
  moreover have "a_use_count (a_release s) \<noteq> 0"
    using False u by (simp add: a_release_simps)
  ultimately show ?thesis
    by (simp add: a_inv_def)
qed

lemma a_RunImpl_step_inv:
  assumes inv: "a_inv h s" and st: "a_RunImpl_step op t s = Some s'"
  shows "a_inv h s'"
proof -
  from st obtain i where i: "a_pc s = Loop i"
    by (cases "a_pc s") (auto simp add: a_RunImpl_step_def Let_def)
  have ret: "a_inv h (a_release (s\<lparr>a_pc := Returned r\<rparr>))" for r
    using inv i by (intro a_inv_release) (simp_all add: a_inv_def a_owners_def a_safe_def)
  have go: "a_inv h (s\<lparr>a_use_count := a_use_count s + 1, a_pc := Loop (i + 1),
                         tasks := tasks s @ [Running]\<rparr>)"
    using inv i by (simp add: a_inv_def a_owners_def a_safe_def)
  from st i ret go show ?thesis
    by (auto simp add: a_RunImpl_step_def Let_def split: if_splits launch.splits)
qed

lemma owned_by_update:
  assumes "\<forall>x \<in> set tks. owned_by h x" and "owned_by h tk"
  shows "\<forall>x \<in> set (tks[i := tk]). owned_by h x"
  using assms set_update_subset_insert [of tks i tk] by auto

lemma a_inv_task_policy:
  assumes inv: "a_inv h s" and i: "i < length (tasks s)"
    and al: "alive tk = alive (tasks s ! i)" and ho: "holds tk = holds (tasks s ! i)"
    and ow: "owned_by h tk"
  shows "a_inv h (s\<lparr>a_ctx := (a_ctx s)\<lparr>Ctx_policy := p\<rparr>, tasks := (tasks s)[i := tk]\<rparr>)"
    and "a_inv h (s\<lparr>tasks := (tasks s)[i := tk]\<rparr>)"
proof -
  note sa = sum_list_map_update [OF i, of alive tk]
  note sh = sum_list_map_update [OF i, of holds tk]
  from inv ow have o: "\<forall>x \<in> set ((tasks s)[i := tk]). owned_by h x"
    by (intro owned_by_update) (simp_all add: a_inv_def a_safe_def)
  from inv sa sh al ho o
  show "a_inv h (s\<lparr>a_ctx := (a_ctx s)\<lparr>Ctx_policy := p\<rparr>, tasks := (tasks s)[i := tk]\<rparr>)"
    and "a_inv h (s\<lparr>tasks := (tasks s)[i := tk]\<rparr>)"
    by (simp_all add: a_inv_def a_owners_def a_safe_def)
qed

lemma a_inv_exchange:
  assumes inv: "a_inv h s" and i: "i < length (tasks s)" and tk: "tasks s ! i = Decided x True"
  shows "a_inv h (s\<lparr>a_ctx := (a_ctx s)\<lparr>Ctx_handler := None\<rparr>,
                    tasks := (tasks s)[i := Exchanged x (Ctx_handler (a_ctx s))]\<rparr>)"
proof -
  let ?tk = "Exchanged x (Ctx_handler (a_ctx s))"
  note sa = sum_list_map_update [OF i, of alive ?tk]
  note sh = sum_list_map_update [OF i, of holds ?tk]
  from inv have "owned_by h ?tk"
    by (cases "Ctx_handler (a_ctx s)") (simp_all add: a_inv_def a_safe_def)
  with inv have o: "\<forall>x \<in> set ((tasks s)[i := ?tk]). owned_by h x"
    by (intro owned_by_update) (simp_all add: a_inv_def a_safe_def)
  from inv sa sh tk o show ?thesis
    by (cases "Ctx_handler (a_ctx s)") (simp_all add: a_inv_def a_owners_def a_safe_def)
qed

lemma a_inv_call:
  assumes inv: "a_inv h s" and i: "i < length (tasks s)" and tk: "tasks s ! i = Exchanged x (Some g)"
  shows "a_inv h (s\<lparr>a_responses := a_responses s @ [(g, x)], tasks := (tasks s)[i := Returning]\<rparr>)"
proof -
  note sa = sum_list_map_update [OF i, of alive Returning]
  note sh = sum_list_map_update [OF i, of holds Returning]
  from i have "tasks s ! i \<in> set (tasks s)"
    by (rule nth_mem)
  with inv have "owned_by h (tasks s ! i)"
    by (simp add: a_inv_def a_safe_def)
  with tk have g: "g = h"
    by simp
  from inv have o: "\<forall>x \<in> set ((tasks s)[i := Returning]). owned_by h x"
    by (intro owned_by_update) (simp_all add: a_inv_def a_safe_def)
  from inv have c: "(case Ctx_handler (a_ctx s) of Some g \<Rightarrow> 1 | None \<Rightarrow> 0) +
      sum_list (map holds (tasks s)) + length (a_responses s) = (1::nat)"
    by (simp only: a_inv_def a_safe_def)
  from sh tk have "sum_list (map holds ((tasks s)[i := Returning])) + 1 =
      sum_list (map holds (tasks s))"
    by simp
  with c have c': "(case Ctx_handler (a_ctx s) of Some g \<Rightarrow> 1 | None \<Rightarrow> 0) +
      sum_list (map holds ((tasks s)[i := Returning])) + (length (a_responses s) + 1) = (1::nat)"
    by linarith
  from inv sa tk o g c' show ?thesis
    by (simp add: a_inv_def a_owners_def a_safe_def del: add_is_1)
qed

lemma a_inv_destroy:
  assumes inv: "a_inv h s" and i: "i < length (tasks s)" and tk: "tasks s ! i = Returning"
  shows "a_inv h (a_release (s\<lparr>tasks := (tasks s)[i := Destroyed]\<rparr>))"
proof (rule a_inv_release)
  note sa = sum_list_map_update [OF i, of alive Destroyed]
  note sh = sum_list_map_update [OF i, of holds Destroyed]
  from inv have o: "\<forall>x \<in> set ((tasks s)[i := Destroyed]). owned_by h x"
    by (intro owned_by_update) (simp_all add: a_inv_def a_safe_def)
  from inv sa tk
  show "a_use_count (s\<lparr>tasks := (tasks s)[i := Destroyed]\<rparr>) =
        Suc (a_owners (s\<lparr>tasks := (tasks s)[i := Destroyed]\<rparr>))"
    by (simp add: a_inv_def a_owners_def)
  from inv sh tk o show "a_safe h (s\<lparr>tasks := (tasks s)[i := Destroyed]\<rparr>)"
    by (simp add: a_inv_def a_safe_def)
qed

lemma a_complete_inv:
  assumes inv: "a_inv h s" and st: "a_complete i x s = Some s'"
  shows "a_inv h s'"
proof -
  from st have i: "i < length (tasks s)" and r: "tasks s ! i = Running"
    and s': "s' = s\<lparr>tasks := (tasks s)[i := Examining x]\<rparr>"
    by (auto simp add: a_complete_def split: if_splits)
  from r show ?thesis
    unfolding s' by (intro a_inv_task_policy(2) [OF inv i]) simp_all
qed

lemma Examine_first_task:
  fixes h :: 'h
  shows "alive (fst (Examine_first st p :: 'h task \<times> PolicyExecutor)) = 1 \<and>
   holds (fst (Examine_first st p :: 'h task \<times> PolicyExecutor)) = 0 \<and>
   owned_by h (fst (Examine_first st p))"
  by (cases p) (simp_all add: Let_def)

lemma Examine_second_task:
  fixes h :: 'h
  shows "alive (fst (Examine_second st p :: 'h task \<times> PolicyExecutor)) = 1 \<and>
   holds (fst (Examine_second st p :: 'h task \<times> PolicyExecutor)) = 0 \<and>
   owned_by h (fst (Examine_second st p))"
  by (cases p) (simp_all add: Let_def)

lemma a_task_step_inv:
  assumes inv: "a_inv h s" and st: "a_task_step i s = Some s'"
  shows "a_inv h s'"
proof -
  from st have i: "i < length (tasks s)"
    by (auto simp add: a_task_step_def split: if_splits)
  show ?thesis
  proof (cases "tasks s ! i")
    case Running
    with st i show ?thesis by (simp add: a_task_step_def)
  next
    case (Examining x)
    let ?r = "Examine_first x (Ctx_policy (a_ctx s)) :: 'a task \<times> PolicyExecutor"
    from st i Examining
    have s': "s' = s\<lparr>a_ctx := (a_ctx s)\<lparr>Ctx_policy := snd ?r\<rparr>, tasks := (tasks s)[i := fst ?r]\<rparr>"
      by (simp add: a_task_step_def split: prod.splits)
    from Examining Examine_first_task [of x "Ctx_policy (a_ctx s)" h] show ?thesis
      unfolding s' by (intro a_inv_task_policy(1) [OF inv i]) simp_all
  next
    case (Counted x nb)
    let ?r = "Examine_second x (Ctx_policy (a_ctx s)) :: 'a task \<times> PolicyExecutor"
    from st i Counted
    have s': "s' = s\<lparr>a_ctx := (a_ctx s)\<lparr>Ctx_policy := snd ?r\<rparr>, tasks := (tasks s)[i := fst ?r]\<rparr>"
      by (simp add: a_task_step_def split: prod.splits)
    from Counted Examine_second_task [of x "Ctx_policy (a_ctx s)" h] show ?thesis
      unfolding s' by (intro a_inv_task_policy(1) [OF inv i]) simp_all
  next
    case (Decided x b)
    show ?thesis
    proof (cases b)
      case True
      with st i Decided a_inv_exchange [OF inv i, of x] show ?thesis
        by (simp add: a_task_step_def)
    next
      case False
      with st i Decided have s': "s' = s\<lparr>tasks := (tasks s)[i := Returning]\<rparr>"
        by (simp add: a_task_step_def)
      from Decided show ?thesis
        unfolding s' by (intro a_inv_task_policy(2) [OF inv i]) simp_all
    qed
  next
    case (Exchanged x hdlr)
    show ?thesis
    proof (cases hdlr)
      case None
      with st i Exchanged have s': "s' = s\<lparr>tasks := (tasks s)[i := Returning]\<rparr>"
        by (simp add: a_task_step_def)
      from Exchanged None show ?thesis
        unfolding s' by (intro a_inv_task_policy(2) [OF inv i]) simp_all
    next
      case (Some g)
      with st i Exchanged a_inv_call [OF inv i, of x g] show ?thesis
        by (simp add: a_task_step_def)
    qed
  next
    case Returning
    with st i a_inv_destroy [OF inv i] show ?thesis
      by (simp add: a_task_step_def)
  next
    case Destroyed
    with st i show ?thesis by (simp add: a_task_step_def)
  qed
qed

lemma a_exec_inv:
  "a_inv h s \<Longrightarrow> a_exec op t es s = Some s' \<Longrightarrow> a_inv h s'"
proof (induction es arbitrary: s)
  case Nil
  then show ?case by simp
next
  case (Cons e es)
  from Cons.prems(2) obtain s1 where st: "a_step op t e s = Some s1" and x: "a_exec op t es s1 = Some s'"
    by (auto split: option.splits)
  from st Cons.prems(1) have "a_inv h s1"
    by (cases e) (auto intro: a_RunImpl_step_inv a_complete_inv a_task_step_inv)
  from this x show ?case by (rule Cons.IH)
qed

lemma sum_list_alive_Destroyed:
  "list_all (\<lambda>tk. tk = Destroyed) tks \<Longrightarrow> sum_list (map alive tks) = 0"
  by (induction tks) simp_all

lemma atomic_handler_invoked_once:
  assumes "a_exec op t es (a_enter op (Some h)) = Some s"
  shows "length (a_responses s) \<le> 1 \<and> (a_finished s \<longrightarrow> (\<exists>st. a_responses s = [(h, st)]))"
proof -
  from a_exec_inv [OF a_inv_enter assms] have inv: "a_inv h s" .
  then have le: "length (a_responses s) \<le> 1"
    by (simp add: a_inv_def a_safe_def)
  have "\<exists>st. a_responses s = [(h, st)]" if "a_finished s"
  proof -
    from that obtain r where r: "a_pc s = Returned r" and d: "list_all (\<lambda>tk. tk = Destroyed) (tasks s)"
      by (auto split: pc.splits)
    from d have a: "sum_list (map alive (tasks s)) = 0"
      by (rule sum_list_alive_Destroyed)
    with sum_list_holds_le_alive [of "tasks s"] have z: "sum_list (map holds (tasks s)) = 0"
      by simp
    from inv r a have u: "a_use_count s = 0"
      by (simp add: a_inv_def a_owners_def)
    with inv have n: "Ctx_handler (a_ctx s) = None"
      by (simp add: a_inv_def)
    from inv n z have "length (a_responses s) = 1"
      and "\<forall>g st. (g, st) \<in> set (a_responses s) \<longrightarrow> g = h"
      by (simp_all add: a_inv_def a_safe_def)
    then show ?thesis
      by (cases "a_responses s") auto
  qed
  with le show ?thesis by blast
qed

text \<open>
  The atomic operations of a policy, one after the other without any step of another
  continuation in between, are \<^verbatim>\<open>Examine\<close>.
\<close>

lemma Examine_first_Decided:
  assumes "fst (Examine_first st p :: 'h task \<times> PolicyExecutor) = Decided x b"
  shows "Examine st p = (b, snd (Examine_first st p :: 'h task \<times> PolicyExecutor))" and "x = st"
  using assms by (cases p; simp add: Let_def split: if_splits)+

lemma Examine_first_Counted:
  assumes "fst (Examine_first st p :: 'h task \<times> PolicyExecutor) = Counted x nb"
  shows "Examine_second st (snd (Examine_first st p :: 'h task \<times> PolicyExecutor)) =
           (Decided st (fst (Examine st p)) :: 'h task, snd (Examine st p))"
    and "x = st"
  using assms by (cases p; simp add: Let_def split: if_splits)+

lemmas atomic_defs =
  ParallelOperation_ctor_def starting_def throwing_def a_enter_def new_Ctx_def
  a_RunImpl_step_def RunImpl_timeout_def a_complete_def a_task_step_def a_release_def
  Ctx_dtor_def Handle_def IsOK_def ok_def failed_def Let_def
  All_def Any_def Some_policy_def AtLeast_def new_AnyPolicy_def new_SomePolicy_def
  new_AtLeastPolicy_def size_pipelines_def

text \<open>
  Two pipelines under \<^verbatim>\<open>Any\<close> that both succeed: both continuations have \<^verbatim>\<open>true\<close> from the
  policy before either calls \<^verbatim>\<open>Handle\<close>; the second one is first at the exchange and calls
  the handler, the first one finds \<^verbatim>\<open>nullptr\<close>.
\<close>

lemma a_exec_race_example:
  "a_exec (Any (fst (ParallelOperation_ctor [starting ''a'', starting ''b''] 0))) 0
     [Launch, Launch, Complete 0 ok, Complete 1 (XRootDStatus stOK ''b''), Launch,
      Advance 0, Advance 1, Advance 1, Advance 0, Advance 0, Advance 0, Advance 1, Advance 1]
     (a_enter (Any (fst (ParallelOperation_ctor [starting ''a'', starting ''b''] 0))) (Some (7::nat)))
   = Some \<lparr>a_ctx = \<lparr>Ctx_handler = None, Ctx_policy = AnyPolicy 0\<rparr>, a_use_count = 0,
           a_responses = [(7, XRootDStatus stOK ''b'')], a_pc = Returned XRootDStatus_default,
           tasks = [Destroyed, Destroyed]\<rparr>"
  by (simp add: atomic_defs)

section \<open>The claims\<close>

text \<open>
  C1. Exactly once. Take any parallel operation (any number of pipelines, any policy, any
  behaviour of the pipelines at launch), activated with a handler \<open>h\<close>, and any
  interleaving \<open>es\<close> of the steps of \<^verbatim>\<open>RunImpl\<close> with the completions of the started
  pipelines. At every moment the handler has been called at most once. When the
  activation is over (\<^verbatim>\<open>RunImpl\<close> has returned and every started pipeline has completed, so
  that the last shared pointer to the \<^verbatim>\<open>Ctx\<close> is released), the handler has been called
  exactly once, with one status. Until then the program can always make a step. (Here
  every call of \<^verbatim>\<open>Ctx::Examine\<close> is one step; \<open>atomic_handler_invoked_once\<close> above is the same
  property for the interleavings of the atomic operations of the calls.)
\<close>

theorem C1_handler_invoked_exactly_once:
  assumes "exec op t es (RunImpl_enter op (Some h)) = Some w"
  shows "length (responses w) \<le> 1 \<and>
         (finished w \<longrightarrow> (\<exists>st. responses w = [(h, st)])) \<and>
         (\<not> finished w \<longrightarrow> (\<exists>e. step op t e w \<noteq> None))"
proof -
  let ?c = "ctx (RunImpl_enter op (Some h))"
  have h: "Ctx_handler ?c = Some h"
    by (simp add: RunImpl_enter_simps new_Ctx_def)
  from Examine_seq_once [OF h, of "completions es"]
  have "length (snd (Examine_seq (completions es) ?c)) \<le> 1"
    by auto
  moreover from Ctx_life_once [OF h, of "completions es"]
  obtain st where "Ctx_life (completions es) ?c = [(h, st)]" ..
  ultimately show ?thesis
    using exec_RunImpl [OF assms] step_enabled [of w op t]
    by (simp del: finished.simps)
qed

theorem C1_handler_invoked_exactly_once_witness:
  "exec (Any (fst (ParallelOperation_ctor [starting ''a'', starting ''b''] 0))) 0
        [Orchestrator, Completion 0 (failed ''x''), Orchestrator, Orchestrator, Completion 1 ok]
        (RunImpl_enter (Any (fst (ParallelOperation_ctor [starting ''a'', starting ''b''] 0)))
          (Some (7::nat)))
   = Some \<lparr>ctx = \<lparr>Ctx_handler = None, Ctx_policy = AnyPolicy 0\<rparr>, use_count = 0,
           responses = [(7, ok)], pc = Returned XRootDStatus_default, running = []\<rparr> \<and>
   finished \<lparr>ctx = \<lparr>Ctx_handler = None, Ctx_policy = AnyPolicy 0\<rparr>, use_count = 0,
           responses = [(7::nat, ok)], pc = Returned XRootDStatus_default, running = []\<rparr> \<and>
   (\<exists>st. [(7::nat, ok)] = [(7, st)])"
  using C1_handler_invoked_exactly_once [OF exec_any_example] exec_any_example
  by simp

text \<open>
  C2 (the code departs from the claim). When a launch throws, \<^verbatim>\<open>RunImpl\<close> leaves the loop
  and returns the failure (\<open>RunImpl_returns_launch_fault\<close>), and as long as a started
  pipeline is pending its return calls nothing (\<open>RunImpl_step_quiet_while_pending\<close>). But
  when no started pipeline is pending, the return releases the last shared pointer, and
  the destructor of the \<^verbatim>\<open>Ctx\<close> calls the handler with the default success status. First
  input: one pipeline, whose launch throws; the handler has not been called before the
  step of \<^verbatim>\<open>RunImpl\<close>, and after it \<^verbatim>\<open>RunImpl\<close> has returned the failure and the handler has
  been called with success. Second input: two pipelines under \<^verbatim>\<open>Any\<close>, the first one fails,
  then the launch of the second one throws; no operation has succeeded, \<^verbatim>\<open>RunImpl\<close> returns
  the failure, and the handler is called with success.
\<close>

theorem C2_launch_fault_calls_handler:
  "responses (RunImpl_enter (fst (ParallelOperation_ctor [throwing ''a'' (failed ''launch'')] 0))
     (Some (7::nat))) = [] \<and>
   exec (fst (ParallelOperation_ctor [throwing ''a'' (failed ''launch'')] 0)) 0
        [Orchestrator]
        (RunImpl_enter (fst (ParallelOperation_ctor [throwing ''a'' (failed ''launch'')] 0))
          (Some (7::nat)))
   = Some \<lparr>ctx = \<lparr>Ctx_handler = None, Ctx_policy = AllPolicy\<rparr>, use_count = 0,
           responses = [(7, XRootDStatus_default)], pc = Returned (failed ''launch''),
           running = []\<rparr> \<and>
   exec (Any (fst (ParallelOperation_ctor [starting ''a'', throwing ''b'' (failed ''launch'')] 0))) 0
        [Orchestrator, Completion 0 (failed ''a'')]
        (RunImpl_enter
          (Any (fst (ParallelOperation_ctor [starting ''a'', throwing ''b'' (failed ''launch'')] 0)))
          (Some (7::nat)))
   = Some \<lparr>ctx = \<lparr>Ctx_handler = Some 7, Ctx_policy = AnyPolicy 1\<rparr>, use_count = 1,
           responses = [], pc = Loop 1, running = []\<rparr> \<and>
   exec (Any (fst (ParallelOperation_ctor [starting ''a'', throwing ''b'' (failed ''launch'')] 0))) 0
        [Orchestrator, Completion 0 (failed ''a''), Orchestrator]
        (RunImpl_enter
          (Any (fst (ParallelOperation_ctor [starting ''a'', throwing ''b'' (failed ''launch'')] 0)))
          (Some (7::nat)))
   = Some \<lparr>ctx = \<lparr>Ctx_handler = None, Ctx_policy = AnyPolicy 1\<rparr>, use_count = 0,
           responses = [(7, XRootDStatus_default)], pc = Returned (failed ''launch''),
           running = []\<rparr> \<and>
   IsOK XRootDStatus_default \<and> \<not> IsOK (failed ''launch'')"
  by (simp add: activation_defs XRootDStatus_default_def)

text \<open>
  C3 (the code departs from the claim). \<^verbatim>\<open>AtLeastPolicy::Examine\<close> never returns true on a
  success, but on a failure it returns true when \<^verbatim>\<open>cnt\<close> before the decrement equals the
  threshold, whether or not the threshold is still reachable. With three tasks and
  threshold 2, after one success the failure of the second task finds \<^verbatim>\<open>cnt = 2\<close>: the
  policy decides and the handler gets the failure, although one success is observed and
  one task is pending, so that two successes are reachable; the third task then succeeds.
\<close>

theorem C3_AtLeastPolicy_decides_while_reachable:
  "fst (Examine ok (new_AtLeastPolicy 3 2)) = False \<and>
   fst (Examine (failed ''e'') (policy_after [ok] (new_AtLeastPolicy 3 2))) = True \<and>
   reachable_spec 2 3 [ok, failed ''e''] = True \<and>
   Ctx_life [ok, failed ''e'', ok] (new_Ctx (Some (7::nat)) (new_AtLeastPolicy 3 2))
     = [(7, failed ''e'')]"
  by (simp add: activation_defs reachable_spec_def)

text \<open>
  C4 (the code departs from the claim). Two tasks, the first succeeds and the second
  fails. Under \<^verbatim>\<open>Some( 2 )\<close> no call of \<^verbatim>\<open>Examine\<close> decides (the success is the first of two,
  the failure finds \<^verbatim>\<open>cnt = 1\<close>), and the destructor of the \<^verbatim>\<open>Ctx\<close> calls the handler with
  the default success status; under \<^verbatim>\<open>All\<close> the handler gets the failure.
\<close>

theorem C4_Some_n_differs_from_All:
  "exec (Some_policy 2 (fst (ParallelOperation_ctor [starting ''a'', starting ''b''] 0))) 0
        [Orchestrator, Orchestrator, Orchestrator, Completion 0 ok, Completion 1 (failed ''e'')]
        (RunImpl_enter (Some_policy 2 (fst (ParallelOperation_ctor [starting ''a'', starting ''b''] 0)))
          (Some (7::nat)))
   = Some \<lparr>ctx = \<lparr>Ctx_handler = None, Ctx_policy = SomePolicy 0 1 2\<rparr>, use_count = 0,
           responses = [(7, XRootDStatus_default)], pc = Returned XRootDStatus_default,
           running = []\<rparr> \<and>
   exec (All (fst (ParallelOperation_ctor [starting ''a'', starting ''b''] 0))) 0
        [Orchestrator, Orchestrator, Orchestrator, Completion 0 ok, Completion 1 (failed ''e'')]
        (RunImpl_enter (All (fst (ParallelOperation_ctor [starting ''a'', starting ''b''] 0)))
          (Some (7::nat)))
   = Some \<lparr>ctx = \<lparr>Ctx_handler = None, Ctx_policy = AllPolicy\<rparr>, use_count = 0,
           responses = [(7, failed ''e'')], pc = Returned XRootDStatus_default,
           running = []\<rparr> \<and>
   IsOK XRootDStatus_default \<and> \<not> IsOK (failed ''e'')"
  by (simp add: activation_defs XRootDStatus_default_def)

text \<open>
  C5. \<^verbatim>\<open>SomePolicy::Examine\<close> returns true on a success exactly when \<^verbatim>\<open>succeeded\<close>, incremented,
  equals the threshold, and on a failure exactly when \<^verbatim>\<open>cnt\<close> before the decrement equals the
  threshold. For a policy made for \<open>n\<close> tasks of which those of \<open>pre\<close> have completed, that
  is: on a success, exactly when this success is the \<open>k\<close>-th one; on a failure, exactly
  when the number \<open>n - length pre\<close> of tasks still pending before the call is \<open>k\<close>.
\<close>

theorem C5_SomePolicy_Examine:
  assumes "n < 2 ^ 64" and "length pre < n"
  shows "fst (Examine st (SomePolicy cnt s k)) = (if IsOK st then s + 1 = k else cnt = k) \<and>
         snd (Examine st (SomePolicy cnt s k)) =
           SomePolicy (cnt - 1) (if IsOK st then s + 1 else s) k \<and>
         policy_after pre (new_SomePolicy (of_nat n) k) =
           SomePolicy (of_nat (n - length pre)) (of_nat (length (filter IsOK pre))) k \<and>
         fst (Examine st (policy_after pre (new_SomePolicy (of_nat n) k))) =
           (if IsOK st then Suc (length (filter IsOK pre)) = unat k
            else n - length pre = unat k)"
proof -
  have le: "length (filter IsOK pre) \<le> length pre"
    by (rule length_filter_le)
  from le assms(2) have "length (filter IsOK pre) < n"
    by (rule le_less_trans)
  then have "Suc (length (filter IsOK pre)) \<le> n"
    by (rule Suc_leI)
  then have b1: "Suc (length (filter IsOK pre)) < 2 ^ 64"
    using assms(1) by (rule le_less_trans)
  have b2: "n - length pre < 2 ^ 64"
    using diff_le_self assms(1) by (rule le_less_trans)
  have e1: "(of_nat (length (filter IsOK pre)) :: size_t) + 1 = k
      \<longleftrightarrow> Suc (length (filter IsOK pre)) = unat k"
    using size_t_of_nat_eq [OF b1, of k] by (simp only: of_nat_Suc add.commute)
  have e2: "(of_nat (n - length pre) :: size_t) = k \<longleftrightarrow> n - length pre = unat k"
    by (rule size_t_of_nat_eq [OF b2])
  have d: "(of_nat n :: size_t) - of_nat (length pre) = of_nat (n - length pre)"
    using assms(2) by (simp only: size_t_of_nat_diff less_imp_le)
  have p: "policy_after pre (new_SomePolicy (of_nat n) k) =
           SomePolicy (of_nat (n - length pre)) (of_nat (length (filter IsOK pre))) k"
    by (simp only: new_SomePolicy_def policy_after_SomePolicy d add_0_left)
  show ?thesis
    by (cases "IsOK st")
       (simp_all only: p Examine_SomePolicy e1 e2 fst_conv snd_conv if_True if_False simp_thms)
qed

theorem C5_SomePolicy_Examine_witness:
  "(4::nat) < 2 ^ 64 \<and> length [failed ''x'', ok] < (4::nat) \<and>
   fst (Examine ok (policy_after [failed ''x'', ok] (new_SomePolicy (of_nat 4) 2))) \<and>
   fst (Examine (failed ''z'') (policy_after [failed ''x'', failed ''y''] (new_SomePolicy (of_nat 4) 2)))"
proof -
  have n: "(4::nat) < 2 ^ 64" by simp
  have l: "length [failed ''x'', ok] < (4::nat)" by simp
  have l': "length [failed ''x'', failed ''y''] < (4::nat)" by simp
  from C5_SomePolicy_Examine [OF n l, of ok _ _ 2]
  have a: "fst (Examine ok (policy_after [failed ''x'', ok] (new_SomePolicy (of_nat 4) 2)))"
    by (simp add: ok_def failed_def IsOK_def)
  from C5_SomePolicy_Examine [OF n l', of "failed ''z''" _ _ 2]
  have b: "fst (Examine (failed ''z'')
      (policy_after [failed ''x'', failed ''y''] (new_SomePolicy (of_nat 4) 2)))"
    by (simp add: ok_def failed_def IsOK_def)
  from n l a b show ?thesis by blast
qed




text \<open>
  C7. When the last shared pointer to a \<^verbatim>\<open>Ctx\<close> whose handler is still there is released,
  the handler is called with the default status, which is a success. Under the policy
  \<^verbatim>\<open>All\<close> (chosen, or taken by default), when every completion is a success, the handler
  is not called as long as the activation is not over, and is called with the default
  success status when it is over.
\<close>

theorem C7_implicit_success:
  assumes p: "policy op = None \<or> policy op = Some AllPolicy"
    and x: "exec op t es (RunImpl_enter op (Some h)) = Some w"
    and all_ok: "\<forall>st\<in>set (completions es). IsOK st"
    and u: "use_count v = 1" and s: "Ctx_handler (ctx v) = Some g"
  shows "responses (release v) = responses v @ [(g, XRootDStatus_default)] \<and>
         IsOK XRootDStatus_default \<and>
         responses w = (if finished w then [(h, XRootDStatus_default)] else [])"
proof -
  let ?c = "new_Ctx (Some h) AllPolicy"
  have c: "Ctx_policy ?c = AllPolicy" "Ctx_handler ?c = Some h"
    by (simp_all add: new_Ctx_def)
  have "responses w = (if finished w then [(h, XRootDStatus_default)] else [])"
    using exec_RunImpl [OF x] Examine_seq_AllPolicy_ok [OF c(1) all_ok] c(2)
    by (simp add: ctx_RunImpl_enter_All [OF p] Ctx_life_alt Ctx_dtor_def Handle_snd_Some
        del: finished.simps)
  moreover have "responses (release v) = responses v @ [(g, XRootDStatus_default)]"
    using u s by (simp add: release_simps Ctx_dtor_def Handle_snd_Some)
  moreover have "IsOK XRootDStatus_default"
    by (simp add: IsOK_def XRootDStatus_default_def)
  ultimately show ?thesis by simp
qed

theorem C7_implicit_success_witness:
  "exec (fst (ParallelOperation_ctor [starting ''a'', starting ''b'', starting ''c''] 0)) 0
        [Orchestrator, Orchestrator, Completion 1 ok, Orchestrator, Completion 0 ok,
         Orchestrator, Completion 2 ok]
        (RunImpl_enter
          (fst (ParallelOperation_ctor [starting ''a'', starting ''b'', starting ''c''] 0))
          (Some (7::nat)))
   = Some \<lparr>ctx = \<lparr>Ctx_handler = None, Ctx_policy = AllPolicy\<rparr>, use_count = 0,
           responses = [(7, XRootDStatus_default)], pc = Returned XRootDStatus_default,
           running = []\<rparr> \<and>
   exec (fst (ParallelOperation_ctor [starting ''a'', starting ''b'', starting ''c''] 0)) 0
        [Orchestrator, Orchestrator, Completion 1 ok, Orchestrator, Completion 0 ok,
         Orchestrator]
        (RunImpl_enter
          (fst (ParallelOperation_ctor [starting ''a'', starting ''b'', starting ''c''] 0))
          (Some (7::nat)))
   = Some \<lparr>ctx = \<lparr>Ctx_handler = Some 7, Ctx_policy = AllPolicy\<rparr>, use_count = 1,
           responses = [], pc = Returned XRootDStatus_default,
           running = [2]\<rparr> \<and>
   responses (release \<lparr>ctx = \<lparr>Ctx_handler = Some (7::nat), Ctx_policy = AllPolicy\<rparr>,
           use_count = 1, responses = [], pc = Returned XRootDStatus_default, running = []\<rparr>)
     = [(7, XRootDStatus_default)]"
proof -
  let ?op = "fst (ParallelOperation_ctor [starting ''a'', starting ''b'', starting ''c''] 0)"
  let ?v = "\<lparr>ctx = \<lparr>Ctx_handler = Some (7::nat), Ctx_policy = AllPolicy\<rparr>,
           use_count = 1, responses = [], pc = Returned XRootDStatus_default, running = []\<rparr>"
  have p: "policy ?op = None \<or> policy ?op = Some AllPolicy"
    by (simp add: ParallelOperation_ctor_def)
  have all_ok: "\<forall>st\<in>set (completions [Orchestrator, Orchestrator, Completion 1 ok, Orchestrator,
      Completion 0 ok, Orchestrator, Completion 2 ok]). IsOK st"
    by (simp add: ok_def IsOK_def)
  have u: "use_count ?v = 1" and s: "Ctx_handler (ctx ?v) = Some 7"
    by simp_all
  from C7_implicit_success [OF p exec_all_ok_example all_ok u s]
  have "responses (release ?v) = responses ?v @ [(7, XRootDStatus_default)]"
    by blast
  then have "responses (release ?v) = [(7, XRootDStatus_default)]"
    by simp
  with exec_all_ok_example exec_all_ok_prefix_example show ?thesis
    by blast
qed

text \<open>
  C8. \<^verbatim>\<open>AllPolicy::Examine\<close> returns false on a success and true on a failure. In every
  interleaving of an activation under \<^verbatim>\<open>All\<close> whose completions are successes \<open>pre\<close>, then
  a failure \<open>f\<close>, then any statuses \<open>post\<close>, the handler is called once, with \<open>f\<close>: the
  call is made by the completion with \<open>f\<close>, and the completions after it call nothing.
\<close>

theorem C8_AllPolicy_first_failure:
  assumes p: "policy op = None \<or> policy op = Some AllPolicy"
    and x: "exec op t es (RunImpl_enter op (Some h)) = Some w"
    and es: "completions es = pre @ f # post"
    and pre: "\<forall>st\<in>set pre. IsOK st" and f: "\<not> IsOK f"
  shows "Examine st AllPolicy = (\<not> IsOK st, AllPolicy) \<and>
         responses w = [(h, f)] \<and>
         snd (Examine_seq (pre @ [f]) (new_Ctx (Some h) AllPolicy)) = [(h, f)] \<and>
         snd (Examine_seq post (fst (Examine_seq (pre @ [f]) (new_Ctx (Some h) AllPolicy)))) = []"
proof -
  let ?c = "new_Ctx (Some h) AllPolicy"
  have c: "Ctx_policy ?c = AllPolicy" "Ctx_handler ?c = Some h"
    by (simp_all add: new_Ctx_def)
  note a = Examine_seq_AllPolicy_failure [OF c pre f]
  have "responses w = [(h, f)]"
    using exec_RunImpl [OF x] a [of post]
    by (simp add: ctx_RunImpl_enter_All [OF p] es Ctx_life_alt Ctx_dtor_def Handle_snd_None
        del: finished.simps)
  moreover have "snd (Examine_seq post (fst (Examine_seq (pre @ [f]) ?c))) = []"
    using Examine_seq_None [OF a(2) [of "[]"], of post] by simp
  ultimately show ?thesis
    using a(1) [of "[]"] by (simp add: Examine_AllPolicy del: Examine.simps)
qed

theorem C8_AllPolicy_first_failure_witness:
  "exec (All (fst (ParallelOperation_ctor [starting ''a'', starting ''b'', starting ''c''] 0))) 0
        [Orchestrator, Orchestrator, Orchestrator, Orchestrator,
         Completion 0 ok, Completion 1 (failed ''e''), Completion 2 ok]
        (RunImpl_enter
          (All (fst (ParallelOperation_ctor [starting ''a'', starting ''b'', starting ''c''] 0)))
          (Some (7::nat)))
   = Some \<lparr>ctx = \<lparr>Ctx_handler = None, Ctx_policy = AllPolicy\<rparr>, use_count = 0,
           responses = [(7, failed ''e'')], pc = Returned XRootDStatus_default,
           running = []\<rparr> \<and>
   IsOK ok \<and> \<not> IsOK (failed ''e'') \<and>
   snd (Examine_seq [ok] (fst (Examine_seq ([ok] @ [failed ''e''])
     (new_Ctx (Some (7::nat)) AllPolicy)))) = []"
proof -
  let ?op = "All (fst (ParallelOperation_ctor [starting ''a'', starting ''b'', starting ''c''] 0))"
  have p: "policy ?op = None \<or> policy ?op = Some AllPolicy"
    by (simp add: All_def)
  have es: "completions [Orchestrator, Orchestrator, Orchestrator, Orchestrator,
         Completion 0 ok, Completion 1 (failed ''e''), Completion 2 ok] = [ok] @ failed ''e'' # [ok]"
    by simp
  have pre: "\<forall>st\<in>set [ok]. IsOK st"
    by (simp add: ok_def IsOK_def)
  have f: "\<not> IsOK (failed ''e'')"
    by (simp add: failed_def IsOK_def)
  from C8_AllPolicy_first_failure [OF p exec_second_fails_example es pre f]
  have "snd (Examine_seq [ok] (fst (Examine_seq ([ok] @ [failed ''e''])
     (new_Ctx (Some (7::nat)) AllPolicy)))) = []"
    by blast
  with exec_second_fails_example pre f show ?thesis
    by simp
qed

text \<open>
  C9 (as amended). \<^verbatim>\<open>Some\<close> and \<^verbatim>\<open>AtLeast\<close> store any threshold as it is given, whatever the
  number of pipelines, and \<^verbatim>\<open>RunImpl\<close> does not look at it: the \<^verbatim>\<open>Ctx\<close> gets the policy with
  that threshold, the steps of \<^verbatim>\<open>RunImpl\<close> are those of the operation without the policy,
  and when every launch starts its pipeline, \<^verbatim>\<open>RunImpl\<close> starts all pipelines and returns
  the default success status.
\<close>

theorem C9_threshold_unchecked:
  assumes "\<forall>p\<in>set (pipelines op). Run p (RunImpl_timeout op t) = Started"
  shows "Some_policy k op = op\<lparr>policy := Some (SomePolicy (of_nat (length (pipelines op))) 0 k)\<rparr> \<and>
         AtLeast k op = op\<lparr>policy := Some (AtLeastPolicy (of_nat (length (pipelines op))) k)\<rparr> \<and>
         Ctx_policy (ctx (RunImpl_enter (Some_policy k op) hdlr)) =
           SomePolicy (of_nat (length (pipelines op))) 0 k \<and>
         Ctx_policy (ctx (RunImpl_enter (AtLeast k op) hdlr)) =
           AtLeastPolicy (of_nat (length (pipelines op))) k \<and>
         RunImpl_step (Some_policy k op) t w = RunImpl_step op t w \<and>
         RunImpl_step (AtLeast k op) t w = RunImpl_step op t w \<and>
         (\<exists>w'. exec (Some_policy k op) t (replicate (Suc (length (pipelines op))) Orchestrator)
                 (RunImpl_enter (Some_policy k op) hdlr) = Some w' \<and>
               pc w' = Returned XRootDStatus_default \<and>
               running w' = [0..<length (pipelines op)]) \<and>
         (\<exists>w'. exec (AtLeast k op) t (replicate (Suc (length (pipelines op))) Orchestrator)
                 (RunImpl_enter (AtLeast k op) hdlr) = Some w' \<and>
               pc w' = Returned XRootDStatus_default \<and>
               running w' = [0..<length (pipelines op)])"
proof -
  have ps: "pipelines (Some_policy k op) = pipelines op"
    and ts: "RunImpl_timeout (Some_policy k op) t = RunImpl_timeout op t"
    by (simp_all add: Some_policy_def RunImpl_timeout_def)
  have pa: "pipelines (AtLeast k op) = pipelines op"
    and ta: "RunImpl_timeout (AtLeast k op) t = RunImpl_timeout op t"
    by (simp_all add: AtLeast_def RunImpl_timeout_def)
  have s: "\<forall>p\<in>set (pipelines (Some_policy k op)).
      Run p (RunImpl_timeout (Some_policy k op) t) = Started"
    using assms by (simp only: ps ts)
  have a: "\<forall>p\<in>set (pipelines (AtLeast k op)).
      Run p (RunImpl_timeout (AtLeast k op) t) = Started"
    using assms by (simp only: pa ta)
  from RunImpl_all_started [OF s, of hdlr] RunImpl_all_started [OF a, of hdlr]
  show ?thesis
    unfolding ps pa
    by (simp add: Some_policy_def AtLeast_def new_SomePolicy_def new_AtLeastPolicy_def
        size_pipelines_def RunImpl_enter_simps new_Ctx_def RunImpl_step_policy)
qed

theorem C9_threshold_unchecked_witness:
  "Run (starting ''a'') 0 = Started \<and>
   Ctx_policy (ctx (RunImpl_enter (Some_policy 0 (fst (ParallelOperation_ctor [starting ''a''] 0)))
     (Some (7::nat)))) = SomePolicy 1 0 0 \<and>
   (\<exists>w'. exec (Some_policy 0 (fst (ParallelOperation_ctor [starting ''a''] 0))) 0
           [Orchestrator, Orchestrator]
           (RunImpl_enter (Some_policy 0 (fst (ParallelOperation_ctor [starting ''a''] 0)))
             (Some (7::nat))) = Some w' \<and>
         pc w' = Returned XRootDStatus_default \<and> running w' = [0])"
proof -
  let ?op = "fst (ParallelOperation_ctor [starting ''a''] 0)"
  have h: "\<forall>p\<in>set (pipelines ?op). Run p (RunImpl_timeout ?op 0) = Started"
    by (simp add: ParallelOperation_ctor_def starting_def)
  have l: "length (pipelines ?op) = 1"
    by (simp add: ParallelOperation_ctor_def)
  have r: "replicate (Suc 1) Orchestrator = [Orchestrator, Orchestrator]"
    by simp
  have u: "[0..<1] = [0::nat]"
    by simp
  note c9 = C9_threshold_unchecked [OF h, of 0 "Some (7::nat)"]
  from c9 have a: "Ctx_policy (ctx (RunImpl_enter (Some_policy 0 ?op) (Some (7::nat)))) =
      SomePolicy (of_nat (length (pipelines ?op))) 0 0"
    by blast
  from c9 have b: "\<exists>w'. exec (Some_policy 0 ?op) 0
        (replicate (Suc (length (pipelines ?op))) Orchestrator)
        (RunImpl_enter (Some_policy 0 ?op) (Some (7::nat))) = Some w' \<and>
      pc w' = Returned XRootDStatus_default \<and> running w' = [0..<length (pipelines ?op)]"
    by blast
  have s: "Run (starting ''a'') 0 = Started"
    by (simp add: starting_def)
  from a b s show ?thesis
    unfolding l r u by simp
qed

text \<open>
  The claim as stated fails: with one pipeline, \<^verbatim>\<open>Some( 0 )\<close> and \<^verbatim>\<open>AtLeast( 5 )\<close> are
  accepted, and \<^verbatim>\<open>RunImpl\<close> starts the pipeline and returns success.
\<close>

theorem C9_threshold_unchecked_counterexample:
  "policy (Some_policy 0 (fst (ParallelOperation_ctor [starting ''a''] 0)))
     = Some (SomePolicy 1 0 0) \<and>
   exec (Some_policy 0 (fst (ParallelOperation_ctor [starting ''a''] 0))) 0
        [Orchestrator, Orchestrator]
        (RunImpl_enter (Some_policy 0 (fst (ParallelOperation_ctor [starting ''a''] 0)))
          (Some (7::nat)))
   = Some \<lparr>ctx = \<lparr>Ctx_handler = Some 7, Ctx_policy = SomePolicy 1 0 0\<rparr>, use_count = 1,
           responses = [], pc = Returned XRootDStatus_default, running = [0]\<rparr> \<and>
   IsOK XRootDStatus_default \<and>
   policy (AtLeast 5 (fst (ParallelOperation_ctor [starting ''a''] 0)))
     = Some (AtLeastPolicy 1 5) \<and>
   exec (AtLeast 5 (fst (ParallelOperation_ctor [starting ''a''] 0))) 0
        [Orchestrator, Orchestrator]
        (RunImpl_enter (AtLeast 5 (fst (ParallelOperation_ctor [starting ''a''] 0)))
          (Some (7::nat)))
   = Some \<lparr>ctx = \<lparr>Ctx_handler = Some 7, Ctx_policy = AtLeastPolicy 1 5\<rparr>, use_count = 1,
           responses = [], pc = Returned XRootDStatus_default, running = [0]\<rparr>"
  by (simp add: activation_defs XRootDStatus_default_def)

text \<open>
  C10. The constructor makes an operation from an empty container; \<^verbatim>\<open>ToString\<close> of that
  operation is \<^verbatim>\<open>Parallel()\<close>; \<^verbatim>\<open>RunImpl\<close> on it starts no pipeline and returns the default
  status, a success, and its return destroys the \<^verbatim>\<open>Ctx\<close>, which calls the handler once,
  with the default success status. Nothing can happen after that.
\<close>

theorem C10_empty_operation:
  "ParallelOperation_ctor [] t = (\<lparr>pipelines = [], policy = None, timeout = t\<rparr>, []) \<and>
   ToString (fst (ParallelOperation_ctor [] t)) = ''Parallel()'' \<and>
   exec (fst (ParallelOperation_ctor [] t)) pipelineTimeout [Orchestrator]
        (RunImpl_enter (fst (ParallelOperation_ctor [] t)) (Some h))
   = Some \<lparr>ctx = \<lparr>Ctx_handler = None, Ctx_policy = AllPolicy\<rparr>, use_count = 0,
           responses = [(h, XRootDStatus_default)], pc = Returned XRootDStatus_default,
           running = []\<rparr> \<and>
   IsOK XRootDStatus_default \<and>
   step (fst (ParallelOperation_ctor [] t)) pipelineTimeout e
     \<lparr>ctx = \<lparr>Ctx_handler = None, Ctx_policy = AllPolicy\<rparr>, use_count = 0,
      responses = [(h, XRootDStatus_default)], pc = Returned XRootDStatus_default,
      running = []\<rparr> = None"
  by (cases e) (simp_all add: activation_defs ToString_def XRootDStatus_default_def)

end
